theory Spec2Isabelle
  imports Main
begin

section \<open>Settings inheritance: the data model of IInheritable.h\<close>

text \<open>
  \<^verbatim>\<open>IInheritable<T>\<close> gives a settings object an ordered vector of shared references to
  parent objects of the same type; the macros \<^verbatim>\<open>GETSET_SETTING\<close> and
  \<^verbatim>\<open>GETSET_NULLABLE_SETTING\<close> add, per declared property, a private slot and the
  accessors \<^verbatim>\<open>Has<name>\<close>, \<^verbatim>\<open>name()\<close>, \<^verbatim>\<open>name(value)\<close>, \<^verbatim>\<open>Clear<name>\<close> and
  \<^verbatim>\<open>_get<name>Impl\<close>.

  Objects are shared through \<^verbatim>\<open>com_ptr\<close>, so they live in an explicit store: a list of
  nodes, an object's address being its index. A \<^verbatim>\<open>com_ptr\<close> that refers to no object
  (a null pointer) is an address outside the store. Reference counts are not modelled.
\<close>

type_synonym addr = nat

text \<open>
  None of the modelled operations throws. \<open>UndefinedBehavior\<close> marks the two places where
  C++ gives the program no meaning: an iterator beyond the end of the vector handed to
  \<^verbatim>\<open>vector::insert\<close>, and a member call through a null \<^verbatim>\<open>com_ptr\<close>. \<open>OutOfRange\<close>
  stands for \<^verbatim>\<open>std::out_of_range\<close>, the exception of a range-checked access; it is here
  so that the absence of such a check can be stated.
\<close>

datatype error = OutOfRange | UndefinedBehavior

text \<open>
  \<^verbatim>\<open>NullableSetting<T>\<close>: an \<^verbatim>\<open>IReference<T>\<close> (\<open>None\<close> is \<^verbatim>\<open>nullptr\<close>) and the flag
  \<^verbatim>\<open>set\<close>.
\<close>

record 'v NullableSetting =
  setting :: "'v option"
  set_flag :: bool

text \<open>
  An object of the concrete type \<^verbatim>\<open>T\<close>: the vector \<^verbatim>\<open>_parents\<close>, the slot
  \<^verbatim>\<open>std::optional<type> _name\<close> of every property declared with \<^verbatim>\<open>GETSET_SETTING\<close>,
  the slot \<^verbatim>\<open>NullableSetting<type> _name\<close> of every property declared with
  \<^verbatim>\<open>GETSET_NULLABLE_SETTING\<close> (both indexed by the property's name), and whatever other
  members \<^verbatim>\<open>T\<close> has.
\<close>

record ('p, 'v, 'x) node =
  parents :: "addr list"
  plain :: "'p \<Rightarrow> 'v option"
  nullable :: "'p \<Rightarrow> 'v NullableSetting"
  extra :: 'x

type_synonym ('p, 'v, 'x) heap = "('p, 'v, 'x) node list"

subsection \<open>IInheritable\<close>

text \<open>\<^verbatim>\<open>InsertParent(parent)\<close>: \<^verbatim>\<open>_parents.push_back(parent)\<close>.\<close>

definition InsertParent :: "addr \<Rightarrow> ('p, 'v, 'x) node \<Rightarrow> ('p, 'v, 'x) node" where
  "InsertParent parent n = n\<lparr>parents := parents n @ [parent]\<rparr>"

text \<open>
  \<^verbatim>\<open>InsertParent(index, parent)\<close>: \<^verbatim>\<open>_parents.insert(_parents.begin() + index, parent)\<close>.
  The source compares \<^verbatim>\<open>index\<close> with nothing. \<^verbatim>\<open>vector::insert\<close> requires an iterator
  into the vector or its end; with \<^verbatim>\<open>index\<close> beyond the size the call is undefined.
\<close>

definition InsertParent_at ::
  "nat \<Rightarrow> addr \<Rightarrow> ('p, 'v, 'x) node \<Rightarrow> error + ('p, 'v, 'x) node"
where
  "InsertParent_at index parent n =
     (if index \<le> length (parents n)
      then Inr (n\<lparr>parents := take index (parents n) @ parent # drop index (parents n)\<rparr>)
      else Inl UndefinedBehavior)"

text \<open>
  A default-constructed \<^verbatim>\<open>T\<close>, as the member initialisers build it: no parents, every
  \<^verbatim>\<open>std::optional\<close> slot \<^verbatim>\<open>nullopt\<close>, every \<^verbatim>\<open>NullableSetting\<close> slot
  \<^verbatim>\<open>{nullptr, false}\<close>. The other members of \<^verbatim>\<open>T\<close> get the value \<open>init\<close> its constructor
  gives them. \<^verbatim>\<open>winrt::make_self<T>()\<close> puts such an object at a fresh address; allocation
  failure is not modelled.
\<close>

definition default_node :: "'x \<Rightarrow> ('p, 'v, 'x) node" where
  "default_node init =
     \<lparr>parents = [], plain = (\<lambda>_. None),
      nullable = (\<lambda>_. \<lparr>setting = None, set_flag = False\<rparr>), extra = init\<rparr>"

definition make_self :: "'x \<Rightarrow> ('p, 'v, 'x) heap \<Rightarrow> addr \<times> ('p, 'v, 'x) heap" where
  "make_self init h = (length h, h @ [default_node init])"

text \<open>A call \<^verbatim>\<open>p->f()\<close> of a mutating member function on the object at \<open>this\<close>.\<close>

definition invoke ::
  "addr \<Rightarrow> (('p, 'v, 'x) node \<Rightarrow> ('p, 'v, 'x) node) \<Rightarrow> ('p, 'v, 'x) heap \<Rightarrow> ('p, 'v, 'x) heap"
where
  "invoke this f h = h[this := f (h ! this)]"

text \<open>
  The virtual \<^verbatim>\<open>_FinalizeInheritance\<close> is a parameter of \<open>CreateChild\<close>: a function
  of the object it is called on and the store. The body in \<^verbatim>\<open>IInheritable\<close> is empty.
\<close>

definition FinalizeInheritance_base :: "addr \<Rightarrow> ('p, 'v, 'x) heap \<Rightarrow> ('p, 'v, 'x) heap" where
  "FinalizeInheritance_base this h = h"

text \<open>
  \<^verbatim>\<open>CreateChild()\<close>, called on the object at \<open>this\<close>: make the child, append \<open>this\<close> to
  the child's parents, run the hook on the child, return the child.
\<close>

definition CreateChild ::
  "(addr \<Rightarrow> ('p, 'v, 'x) heap \<Rightarrow> ('p, 'v, 'x) heap) \<Rightarrow> 'x \<Rightarrow> ('p, 'v, 'x) heap \<Rightarrow> addr
     \<Rightarrow> error + addr \<times> ('p, 'v, 'x) heap"
where
  "CreateChild FinalizeInheritance init h this =
     (if this < length h then
        (let (child, h1) = make_self init h;
             parent = this;
             h2 = invoke child (InsertParent parent) h1;
             h3 = FinalizeInheritance child h2
         in Inr (child, h3))
      else Inl UndefinedBehavior)"

subsection \<open>GETSET\_SETTING\<close>

definition Has :: "'p \<Rightarrow> ('p, 'v, 'x) node \<Rightarrow> bool" where
  "Has name n = (plain n name \<noteq> None)"

definition Set :: "'p \<Rightarrow> 'v \<Rightarrow> ('p, 'v, 'x) node \<Rightarrow> ('p, 'v, 'x) node" where
  "Set name v n = n\<lparr>plain := (plain n)(name := Some v)\<rparr>"

definition Clear :: "'p \<Rightarrow> ('p, 'v, 'x) node \<Rightarrow> ('p, 'v, 'x) node" where
  "Clear name n = n\<lparr>plain := (plain n)(name := None)\<rparr>"

text \<open>
  The loop \<^verbatim>\<open>for (auto parent : _parents)\<close> of both \<^verbatim>\<open>_get<name>Impl\<close>: ask each parent
  in turn, return the first result that counts as found, and the not-found value when
  the vector is exhausted. \<open>get\<close> is the recursive call; \<open>None\<close> is a call that does not
  return, and an undefined call makes the whole loop undefined.
\<close>

fun parents_loop ::
  "('r \<Rightarrow> bool) \<Rightarrow> 'r \<Rightarrow> (addr \<Rightarrow> (error + 'r) option) \<Rightarrow> addr list \<Rightarrow> (error + 'r) option"
where
  "parents_loop found not_found get [] = Some (Inr not_found)"
| "parents_loop found not_found get (parent # rest) =
     Option.bind (get parent) (\<lambda>res.
       case res of
         Inl e \<Rightarrow> Some (Inl e)
       | Inr val \<Rightarrow> if found val then Some (Inr val)
                   else parents_loop found not_found get rest)"

lemma parents_loop_mono [partial_function_mono]:
  assumes "\<And>p. mono_option (\<lambda>f. B f p)"
  shows "mono_option (\<lambda>f. parents_loop found not_found (B f) ps)"
proof (induction ps)
  case Nil
  show ?case by (simp add: option.const_mono)
next
  case (Cons p ps)
  have step: "mono_option (\<lambda>f. case y of
                 Inl e \<Rightarrow> Some (Inl e)
               | Inr val \<Rightarrow> if found val then Some (Inr val)
                           else parents_loop found not_found (B f) ps)" for y
    using Cons.IH by (cases y) (auto intro!: partial_function_mono)
  show ?case
    unfolding parents_loop.simps
    by (rule bind_mono) (rule assms, rule step)
qed

text \<open>
  \<^verbatim>\<open>_get<name>Impl\<close>: the node's own value if it has one, else the first value found
  through the parents, else \<^verbatim>\<open>nullopt\<close>. The recursion follows the parent references
  and has no cycle check, so the function is partial: \<open>None\<close> is a call that never
  returns.
\<close>

partial_function (option) getImpl ::
  "('p, 'v, 'x) heap \<Rightarrow> 'p \<Rightarrow> addr \<Rightarrow> (error + 'v option) option"
where
  "getImpl h name this =
     (if this < length h then
        (if plain (h ! this) name \<noteq> None then Some (Inr (plain (h ! this) name))
         else parents_loop (\<lambda>val. val \<noteq> None) None (getImpl h name) (parents (h ! this)))
      else Some (Inl UndefinedBehavior))"

declare getImpl.simps [code]

text \<open>
  The getter \<^verbatim>\<open>name()\<close>: \<^verbatim>\<open>val ? *val : type{ __VA_ARGS__ }\<close>. The macro's default
  arguments are the parameter \<open>dflt\<close>, one default per property.
\<close>

definition Get ::
  "('p \<Rightarrow> 'v) \<Rightarrow> ('p, 'v, 'x) heap \<Rightarrow> 'p \<Rightarrow> addr \<Rightarrow> (error + 'v) option"
where
  "Get dflt h name this =
     (case getImpl h name this of
        None \<Rightarrow> None
      | Some (Inl e) \<Rightarrow> Some (Inl e)
      | Some (Inr val) \<Rightarrow> Some (Inr (case val of Some v \<Rightarrow> v | None \<Rightarrow> dflt name)))"

subsection \<open>GETSET\_NULLABLE\_SETTING\<close>

definition Has_nullable :: "'p \<Rightarrow> ('p, 'v, 'x) node \<Rightarrow> bool" where
  "Has_nullable name n = set_flag (nullable n name)"

text \<open>
  The setter assigns unless the slot is set and already holds \<^verbatim>\<open>value\<close>. C++/WinRT
  compares two \<^verbatim>\<open>IReference\<close>s by identity; the model compares the values they box.
  Where the two differ (equal values in distinct boxes) the source assigns a reference
  to an equal value, which leaves the modelled slot as it is.
\<close>

definition Set_nullable :: "'p \<Rightarrow> 'v option \<Rightarrow> ('p, 'v, 'x) node \<Rightarrow> ('p, 'v, 'x) node" where
  "Set_nullable name v n =
     (if \<not> Has_nullable name n \<or> setting (nullable n name) \<noteq> v
      then n\<lparr>nullable := (nullable n)(name := \<lparr>setting = v, set_flag = True\<rparr>)\<rparr>
      else n)"

definition Clear_nullable :: "'p \<Rightarrow> ('p, 'v, 'x) node \<Rightarrow> ('p, 'v, 'x) node" where
  "Clear_nullable name n =
     n\<lparr>nullable := (nullable n)(name := (nullable n name)\<lparr>set_flag := False\<rparr>)\<rparr>"

partial_function (option) getImpl_nullable ::
  "('p, 'v, 'x) heap \<Rightarrow> 'p \<Rightarrow> addr \<Rightarrow> (error + 'v NullableSetting) option"
where
  "getImpl_nullable h name this =
     (if this < length h then
        (if Has_nullable name (h ! this) then Some (Inr (nullable (h ! this) name))
         else parents_loop set_flag \<lparr>setting = None, set_flag = False\<rparr>
                (getImpl_nullable h name) (parents (h ! this)))
      else Some (Inl UndefinedBehavior))"

declare getImpl_nullable.simps [code]

text \<open>
  The getter \<^verbatim>\<open>name()\<close>: \<^verbatim>\<open>val.set ? val.setting : IReference<type>{ __VA_ARGS__ }\<close>;
  the default may itself be null.
\<close>

definition Get_nullable ::
  "('p \<Rightarrow> 'v option) \<Rightarrow> ('p, 'v, 'x) heap \<Rightarrow> 'p \<Rightarrow> addr \<Rightarrow> (error + 'v option) option"
where
  "Get_nullable dflt h name this =
     (case getImpl_nullable h name this of
        None \<Rightarrow> None
      | Some (Inl e) \<Rightarrow> Some (Inl e)
      | Some (Inr val) \<Rightarrow> Some (Inr (if set_flag val then setting val else dflt name)))"

subsection \<open>The parent graph\<close>

text \<open>
  \<open>(p, n)\<close> is an edge when \<open>p\<close> is in the parent vector of the object at \<open>n\<close>. The
  ancestry of \<open>n\<close> is \<open>n\<close> with everything reachable from it along such edges.
\<close>

definition parent_rel :: "('p, 'v, 'x) heap \<Rightarrow> (addr \<times> addr) set" where
  "parent_rel h = {(p, n). n < length h \<and> p \<in> set (parents (h ! n))}"

definition ancestry :: "('p, 'v, 'x) heap \<Rightarrow> addr \<Rightarrow> addr set" where
  "ancestry h n = {a. (a, n) \<in> (parent_rel h)\<^sup>*}"

text \<open>The parent graph of \<open>n\<close> is acyclic: no node of its ancestry lies on a cycle.\<close>

definition acyclic_from :: "('p, 'v, 'x) heap \<Rightarrow> addr \<Rightarrow> bool" where
  "acyclic_from h n = (\<forall>a \<in> ancestry h n. (a, a) \<notin> (parent_rel h)\<^sup>+)"

text \<open>Every reference in the ancestry of \<open>n\<close> refers to an object.\<close>

definition valid_from :: "('p, 'v, 'x) heap \<Rightarrow> addr \<Rightarrow> bool" where
  "valid_from h n = (\<forall>a \<in> ancestry h n. a < length h)"

text \<open>
  A store built by allocating children after their parents: every parent reference
  points to a lower address. This is decidable by evaluation and implies the two
  properties above.
\<close>

definition parents_below :: "('p, 'v, 'x) heap \<Rightarrow> bool" where
  "parents_below h = (\<forall>n < length h. \<forall>p \<in> set (parents (h ! n)). p < n)"

text \<open>The edges of the parent graph that start in the ancestry of \<open>n\<close>.\<close>

definition ancestry_rel :: "('p, 'v, 'x) heap \<Rightarrow> addr \<Rightarrow> (addr \<times> addr) set" where
  "ancestry_rel h n = {(p, m). (p, m) \<in> parent_rel h \<and> m \<in> ancestry h n}"

text \<open>
  Two stores that resolution of the property \<open>name\<close> cannot tell apart: the same
  objects with the same parents, and slots for \<open>name\<close> that agree in what is explicitly
  set. For a nullable slot that is the flag, and the stored value only where the flag
  is true.
\<close>

definition same_plain_view :: "'p \<Rightarrow> ('p, 'v, 'x) heap \<Rightarrow> ('p, 'v, 'x) heap \<Rightarrow> bool" where
  "same_plain_view name h h' =
     (length h' = length h \<and>
      (\<forall>a < length h. parents (h' ! a) = parents (h ! a)
                     \<and> plain (h' ! a) name = plain (h ! a) name))"

definition same_nullable_view :: "'p \<Rightarrow> ('p, 'v, 'x) heap \<Rightarrow> ('p, 'v, 'x) heap \<Rightarrow> bool" where
  "same_nullable_view name h h' =
     (length h' = length h \<and>
      (\<forall>a < length h. parents (h' ! a) = parents (h ! a)
                     \<and> set_flag (nullable (h' ! a) name) = set_flag (nullable (h ! a) name)
                     \<and> (set_flag (nullable (h ! a) name)
                          \<longrightarrow> nullable (h' ! a) name = nullable (h ! a) name)))"

subsection \<open>Example stores and an example hook\<close>

text \<open>
  Five objects with the properties named by numbers. 0 is a root with the plain and the
  nullable property 0 set to 10; 1 is a child of 0 with nothing set; 2 has both set to
  20; 3 has nothing set and no parent; 4 has nothing set and the parents 3, 1, 2 and a
  null reference, in this order.
\<close>

definition layered_store :: "(nat, nat, unit) heap" where
  "layered_store =
     [Set_nullable 0 (Some 10) (Set 0 10 (default_node ())),
      InsertParent 0 (default_node ()),
      Set_nullable 0 (Some 20) (Set 0 20 (default_node ())),
      default_node (),
      InsertParent 99 (InsertParent 2 (InsertParent 1 (InsertParent 3 (default_node ()))))]"

text \<open>
  Two objects with property 0 set (the nullable one of object 1 to null) and a third
  whose parents they are, in this order.
\<close>

definition two_parent_store :: "(nat, nat, unit) heap" where
  "two_parent_store =
     [Set_nullable 0 (Some 10) (Set 0 10 (default_node ())),
      Set_nullable 0 None (Set 0 20 (default_node ())),
      InsertParent 1 (InsertParent 0 (default_node ()))]"

text \<open>
  An override of the hook that writes to the child only: it counts its calls in the
  other members of the object it is called on.
\<close>

definition counting_hook :: "addr \<Rightarrow> ('p, 'v, nat) heap \<Rightarrow> ('p, 'v, nat) heap" where
  "counting_hook this h = invoke this (extra_update Suc) h"

section \<open>Properties of the parent loop and of resolution\<close>

subsection \<open>The loop over the parents\<close>

lemma parents_loop_first:
  assumes "\<forall>p \<in> set pre. \<exists>r. get p = Some (Inr r) \<and> \<not> found r"
    and "get q = Some (Inr v)" and "found v"
  shows "parents_loop found nf get (pre @ q # post) = Some (Inr v)"
  using assms by (induction pre) auto

lemma parents_loop_none_found:
  assumes "\<forall>p \<in> set ps. \<exists>r. get p = Some (Inr r) \<and> \<not> found r"
  shows "parents_loop found nf get ps = Some (Inr nf)"
  using assms by (induction ps) auto

lemma parents_loop_returns:
  assumes "\<forall>p \<in> set ps. get p \<noteq> None"
  shows "parents_loop found nf get ps \<noteq> None"
  using assms by (induction ps) (auto split: sum.splits)

lemma parents_loop_transfer:
  assumes "parents_loop found nf f ps = Some y"
    and "\<And>p r. p \<in> set ps \<Longrightarrow> f p = Some r \<Longrightarrow> g p = Some r"
  shows "parents_loop found nf g ps = Some y"
  using assms
proof (induction ps)
  case Nil
  then show ?case by simp
next
  case (Cons p ps)
  from Cons.prems(1) obtain r where r: "f p = Some r"
    by (cases "f p") auto
  then have g: "g p = Some r" using Cons.prems(2) by simp
  show ?case
  proof (cases r)
    case (Inl e)
    with r g Cons.prems(1) show ?thesis by auto
  next
    case (Inr val)
    show ?thesis
    proof (cases "found val")
      case True
      with Inr r g Cons.prems(1) show ?thesis by auto
    next
      case False
      with Inr r Cons.prems(1) have "parents_loop found nf f ps = Some y" by simp
      then have "parents_loop found nf g ps = Some y"
        using Cons.prems(2) by (intro Cons.IH) auto
      with False Inr g show ?thesis by auto
    qed
  qed
qed

subsection \<open>Resolution reads only what is explicitly set\<close>

lemma getImpl_transfer:
  "getImpl h name this = Some y \<Longrightarrow> \<forall>h'. same_plain_view name h h' \<longrightarrow> getImpl h' name this = Some y"
proof (induction rule: getImpl.raw_induct[rotated 1, consumes 1, case_names step])
  case (step rec h name this y)
  show ?case
  proof (intro allI impI)
    fix h'
    assume v: "same_plain_view name h h'"
    show "getImpl h' name this = Some y"
    proof (cases "this < length h")
      case False
      with step.hyps v show ?thesis
        by (subst getImpl.simps) (simp add: same_plain_view_def)
    next
      case inb: True
      show ?thesis
      proof (cases "plain (h ! this) name")
        case (Some w)
        with inb step.hyps v show ?thesis
          by (subst getImpl.simps) (simp add: same_plain_view_def)
      next
        case None
        with inb step.hyps
        have "parents_loop (\<lambda>val. val \<noteq> None) None (rec h name) (parents (h ! this)) = Some y"
          by simp
        then have "parents_loop (\<lambda>val. val \<noteq> None) None (getImpl h' name) (parents (h ! this)) = Some y"
          by (rule parents_loop_transfer) (use step.IH v in blast)
        with None inb v show ?thesis
          by (subst getImpl.simps) (simp add: same_plain_view_def)
      qed
    qed
  qed
qed

lemma getImpl_same_view:
  assumes "same_plain_view name h h'"
  shows "getImpl h' name this = getImpl h name this"
proof -
  have sym: "same_plain_view name h' h"
    using assms by (simp add: same_plain_view_def)
  show ?thesis
  proof (cases "getImpl h name this")
    case (Some y)
    with getImpl_transfer assms show ?thesis by fastforce
  next
    case None
    show ?thesis
    proof (cases "getImpl h' name this")
      case (Some y)
      with getImpl_transfer[OF Some] sym None show ?thesis by fastforce
    qed (simp add: None)
  qed
qed

lemma getImpl_nullable_transfer:
  "getImpl_nullable h name this = Some y \<Longrightarrow>
     \<forall>h'. same_nullable_view name h h' \<longrightarrow> getImpl_nullable h' name this = Some y"
proof (induction rule: getImpl_nullable.raw_induct[rotated 1, consumes 1, case_names step])
  case (step rec h name this y)
  show ?case
  proof (intro allI impI)
    fix h'
    assume v: "same_nullable_view name h h'"
    show "getImpl_nullable h' name this = Some y"
    proof (cases "this < length h")
      case False
      with step.hyps v show ?thesis
        by (subst getImpl_nullable.simps) (simp add: same_nullable_view_def)
    next
      case inb: True
      show ?thesis
      proof (cases "Has_nullable name (h ! this)")
        case True
        with inb step.hyps v show ?thesis
          by (subst getImpl_nullable.simps) (auto simp: same_nullable_view_def Has_nullable_def)
      next
        case False
        with inb step.hyps
        have "parents_loop set_flag \<lparr>setting = None, set_flag = False\<rparr> (rec h name)
                (parents (h ! this)) = Some y"
          by simp
        then have "parents_loop set_flag \<lparr>setting = None, set_flag = False\<rparr>
                     (getImpl_nullable h' name) (parents (h ! this)) = Some y"
          by (rule parents_loop_transfer) (use step.IH v in blast)
        with False inb v show ?thesis
          by (subst getImpl_nullable.simps) (simp add: same_nullable_view_def Has_nullable_def)
      qed
    qed
  qed
qed

lemma getImpl_nullable_same_view:
  assumes "same_nullable_view name h h'"
  shows "getImpl_nullable h' name this = getImpl_nullable h name this"
proof -
  have sym: "same_nullable_view name h' h"
    using assms by (auto simp: same_nullable_view_def)
  show ?thesis
  proof (cases "getImpl_nullable h name this")
    case (Some y)
    with getImpl_nullable_transfer assms show ?thesis by fastforce
  next
    case None
    show ?thesis
    proof (cases "getImpl_nullable h' name this")
      case (Some y)
      with getImpl_nullable_transfer[OF Some] sym None show ?thesis by fastforce
    qed (simp add: None)
  qed
qed

subsection \<open>Well-foundedness of an acyclic ancestry\<close>

lemma finite_parent_rel: "finite (parent_rel h)"
proof -
  have "parent_rel h \<subseteq> (\<Union>n \<in> {..<length h}. set (parents (h ! n))) \<times> {..<length h}"
    by (auto simp: parent_rel_def)
  moreover have "finite ((\<Union>n \<in> {..<length h}. set (parents (h ! n))) \<times> {..<length h})"
    by simp
  ultimately show ?thesis by (rule finite_subset)
qed

lemma ancestry_self: "n \<in> ancestry h n"
  by (simp add: ancestry_def)

lemma ancestry_parent:
  "m \<in> ancestry h n \<Longrightarrow> m < length h \<Longrightarrow> p \<in> set (parents (h ! m)) \<Longrightarrow> p \<in> ancestry h n"
  unfolding ancestry_def parent_rel_def
  by (auto intro: converse_rtrancl_into_rtrancl)

lemma wf_ancestry_rel:
  assumes "acyclic_from h n"
  shows "wf (ancestry_rel h n)"
proof (rule finite_acyclic_wf)
  have "ancestry_rel h n \<subseteq> parent_rel h"
    by (auto simp: ancestry_rel_def)
  then show "finite (ancestry_rel h n)"
    using finite_parent_rel by (rule finite_subset)
  show "acyclic (ancestry_rel h n)"
    unfolding acyclic_def
  proof (intro allI notI)
    fix a
    assume cyc: "(a, a) \<in> (ancestry_rel h n)\<^sup>+"
    have sub: "ancestry_rel h n \<subseteq> parent_rel h"
      by (auto simp: ancestry_rel_def)
    from cyc have "(a, a) \<in> (parent_rel h)\<^sup>+"
      using trancl_mono[OF _ sub] by blast
    moreover from cyc obtain b where "(b, a) \<in> ancestry_rel h n"
      by (meson tranclE)
    then have "a \<in> ancestry h n"
      by (simp add: ancestry_rel_def)
    ultimately show False
      using assms by (auto simp: acyclic_from_def)
  qed
qed

lemma getImpl_returns_ancestry:
  assumes "acyclic_from h n"
  shows "m \<in> ancestry h n \<Longrightarrow> \<exists>r. getImpl h name m = Some r"
proof (induction m rule: wf_induct_rule[OF wf_ancestry_rel[OF assms]])
  case (1 m)
  show ?case
  proof (cases "m < length h \<and> plain (h ! m) name = None")
    case False
    then show ?thesis
      by (subst getImpl.simps) auto
  next
    case True
    have "\<forall>p \<in> set (parents (h ! m)). getImpl h name p \<noteq> None"
    proof
      fix p assume p: "p \<in> set (parents (h ! m))"
      with True "1.prems" have "(p, m) \<in> ancestry_rel h n"
        by (simp add: ancestry_rel_def parent_rel_def)
      moreover from p True "1.prems" have "p \<in> ancestry h n"
        by (blast intro: ancestry_parent)
      ultimately show "getImpl h name p \<noteq> None"
        using "1.IH" by fastforce
    qed
    then have "parents_loop (\<lambda>val. val \<noteq> None) None (getImpl h name) (parents (h ! m)) \<noteq> None"
      by (rule parents_loop_returns)
    with True show ?thesis
      by (subst getImpl.simps) auto
  qed
qed

lemma getImpl_returns:
  "acyclic_from h n \<Longrightarrow> \<exists>r. getImpl h name n = Some r"
  by (rule getImpl_returns_ancestry[OF _ ancestry_self])

lemma getImpl_nullable_returns_ancestry:
  assumes "acyclic_from h n"
  shows "m \<in> ancestry h n \<Longrightarrow> \<exists>r. getImpl_nullable h name m = Some r"
proof (induction m rule: wf_induct_rule[OF wf_ancestry_rel[OF assms]])
  case (1 m)
  show ?case
  proof (cases "m < length h \<and> \<not> Has_nullable name (h ! m)")
    case False
    then show ?thesis
      by (subst getImpl_nullable.simps) auto
  next
    case True
    have "\<forall>p \<in> set (parents (h ! m)). getImpl_nullable h name p \<noteq> None"
    proof
      fix p assume p: "p \<in> set (parents (h ! m))"
      with True "1.prems" have "(p, m) \<in> ancestry_rel h n"
        by (simp add: ancestry_rel_def parent_rel_def)
      moreover from p True "1.prems" have "p \<in> ancestry h n"
        by (blast intro: ancestry_parent)
      ultimately show "getImpl_nullable h name p \<noteq> None"
        using "1.IH" by fastforce
    qed
    then have "parents_loop set_flag \<lparr>setting = None, set_flag = False\<rparr>
                 (getImpl_nullable h name) (parents (h ! m)) \<noteq> None"
      by (rule parents_loop_returns)
    with True show ?thesis
      by (subst getImpl_nullable.simps) auto
  qed
qed

lemma getImpl_nullable_returns:
  "acyclic_from h n \<Longrightarrow> \<exists>r. getImpl_nullable h name n = Some r"
  by (rule getImpl_nullable_returns_ancestry[OF _ ancestry_self])

subsection \<open>An ancestry without explicit values\<close>

text \<open>Nothing set anywhere in the ancestry: resolution finds nothing.\<close>

lemma getImpl_unset_ancestry:
  assumes "acyclic_from h n" and "valid_from h n"
    and "\<forall>a \<in> ancestry h n. plain (h ! a) name = None"
  shows "m \<in> ancestry h n \<Longrightarrow> getImpl h name m = Some (Inr None)"
proof (induction m rule: wf_induct_rule[OF wf_ancestry_rel[OF assms(1)]])
  case (1 m)
  from "1.prems" assms(2,3) have m: "m < length h" "plain (h ! m) name = None"
    by (auto simp: valid_from_def)
  have "\<forall>p \<in> set (parents (h ! m)). \<exists>r. getImpl h name p = Some (Inr r) \<and> \<not> r \<noteq> None"
  proof
    fix p assume p: "p \<in> set (parents (h ! m))"
    with m "1.prems" have "(p, m) \<in> ancestry_rel h n"
      by (simp add: ancestry_rel_def parent_rel_def)
    moreover from p m "1.prems" have "p \<in> ancestry h n"
      by (blast intro: ancestry_parent)
    ultimately show "\<exists>r. getImpl h name p = Some (Inr r) \<and> \<not> r \<noteq> None"
      using "1.IH" by fastforce
  qed
  then have "parents_loop (\<lambda>val. val \<noteq> None) None (getImpl h name) (parents (h ! m))
               = Some (Inr None)"
    by (rule parents_loop_none_found)
  with m show ?case
    by (subst getImpl.simps) simp
qed

lemma getImpl_nullable_unset_ancestry:
  assumes "acyclic_from h n" and "valid_from h n"
    and "\<forall>a \<in> ancestry h n. \<not> Has_nullable name (h ! a)"
  shows "m \<in> ancestry h n \<Longrightarrow>
           getImpl_nullable h name m = Some (Inr \<lparr>setting = None, set_flag = False\<rparr>)"
proof (induction m rule: wf_induct_rule[OF wf_ancestry_rel[OF assms(1)]])
  case (1 m)
  from "1.prems" assms(2,3) have m: "m < length h" "\<not> Has_nullable name (h ! m)"
    by (auto simp: valid_from_def)
  have "\<forall>p \<in> set (parents (h ! m)). \<exists>r. getImpl_nullable h name p = Some (Inr r) \<and> \<not> set_flag r"
  proof
    fix p assume p: "p \<in> set (parents (h ! m))"
    with m "1.prems" have "(p, m) \<in> ancestry_rel h n"
      by (simp add: ancestry_rel_def parent_rel_def)
    moreover from p m "1.prems" have "p \<in> ancestry h n"
      by (blast intro: ancestry_parent)
    ultimately have "getImpl_nullable h name p = Some (Inr \<lparr>setting = None, set_flag = False\<rparr>)"
      using "1.IH" by fastforce
    then show "\<exists>r. getImpl_nullable h name p = Some (Inr r) \<and> \<not> set_flag r"
      by simp
  qed
  then have "parents_loop set_flag \<lparr>setting = None, set_flag = False\<rparr>
               (getImpl_nullable h name) (parents (h ! m))
               = Some (Inr \<lparr>setting = None, set_flag = False\<rparr>)"
    by (rule parents_loop_none_found)
  with m show ?case
    by (subst getImpl_nullable.simps) simp
qed

subsection \<open>Stores allocated parents first\<close>

text \<open>Stores whose parent references all point downwards.\<close>

lemma parents_below_rel:
  assumes "parents_below h"
  shows "parent_rel h \<subseteq> {(p, n). p < n}"
  using assms by (auto simp: parents_below_def parent_rel_def)

lemma parents_below_trancl:
  assumes "parents_below h" and "(a, b) \<in> (parent_rel h)\<^sup>+"
  shows "a < b"
proof -
  have "(a, b) \<in> {(p, n). p < n}\<^sup>+"
    using trancl_mono[OF assms(2) parents_below_rel[OF assms(1)]] .
  moreover have "trans {(p::nat, n). p < n}"
    by (auto simp: trans_def)
  ultimately show ?thesis
    by (simp add: trancl_id)
qed

lemma parents_below_ancestry:
  assumes "parents_below h" and "a \<in> ancestry h n"
  shows "a \<le> n"
proof -
  from assms(2) have "a = n \<or> (a, n) \<in> (parent_rel h)\<^sup>+"
    by (auto simp: ancestry_def dest: rtranclD)
  with parents_below_trancl[OF assms(1)] show ?thesis
    by (auto simp: less_imp_le)
qed

lemma parents_below_acyclic_from:
  "parents_below h \<Longrightarrow> acyclic_from h n"
  unfolding acyclic_from_def using parents_below_trancl by blast

lemma parents_below_valid_from:
  "parents_below h \<Longrightarrow> n < length h \<Longrightarrow> valid_from h n"
  unfolding valid_from_def using parents_below_ancestry by fastforce

subsection \<open>Evaluating the node operations\<close>

lemmas store_ops =
  default_node_def InsertParent_def Set_def Set_nullable_def Has_nullable_def

subsection \<open>One step of resolution\<close>

lemma getImpl_own:
  "this < length h \<Longrightarrow> plain (h ! this) name = Some v \<Longrightarrow>
     getImpl h name this = Some (Inr (Some v))"
  by (subst getImpl.simps) simp

lemma getImpl_unset:
  "this < length h \<Longrightarrow> plain (h ! this) name = None \<Longrightarrow>
     getImpl h name this
       = parents_loop (\<lambda>val. val \<noteq> None) None (getImpl h name) (parents (h ! this))"
  by (subst getImpl.simps) simp

lemma getImpl_nullable_own:
  "this < length h \<Longrightarrow> Has_nullable name (h ! this) \<Longrightarrow>
     getImpl_nullable h name this = Some (Inr (nullable (h ! this) name))"
  by (subst getImpl_nullable.simps) simp

lemma getImpl_nullable_unset:
  "this < length h \<Longrightarrow> \<not> Has_nullable name (h ! this) \<Longrightarrow>
     getImpl_nullable h name this
       = parents_loop set_flag \<lparr>setting = None, set_flag = False\<rparr>
           (getImpl_nullable h name) (parents (h ! this))"
  by (subst getImpl_nullable.simps) simp

lemma getImpl_first_parent:
  assumes "this < length h" and "plain (h ! this) name = None"
    and "parents (h ! this) = pre @ q # post"
    and "\<forall>p \<in> set pre. getImpl h name p = Some (Inr None)"
    and "getImpl h name q = Some (Inr (Some v))"
  shows "getImpl h name this = Some (Inr (Some v))"
proof -
  have "parents_loop (\<lambda>val. val \<noteq> None) None (getImpl h name) (pre @ q # post)
          = Some (Inr (Some v))"
    using assms(4,5) by (intro parents_loop_first) auto
  with assms(1,2,3) show ?thesis
    by (simp add: getImpl_unset)
qed

lemma getImpl_nullable_first_parent:
  assumes "this < length h" and "\<not> Has_nullable name (h ! this)"
    and "parents (h ! this) = pre @ q # post"
    and "\<forall>p \<in> set pre. \<exists>r. getImpl_nullable h name p = Some (Inr r) \<and> \<not> set_flag r"
    and "getImpl_nullable h name q = Some (Inr r)" and "set_flag r"
  shows "getImpl_nullable h name this = Some (Inr r)"
proof -
  have "parents_loop set_flag \<lparr>setting = None, set_flag = False\<rparr>
          (getImpl_nullable h name) (pre @ q # post) = Some (Inr r)"
    using assms(4,5,6) by (intro parents_loop_first) auto
  with assms(1,2,3) show ?thesis
    by (simp add: getImpl_nullable_unset)
qed

lemma getImpl_default_node:
  assumes "c < length h" and "h ! c = default_node init"
  shows "getImpl h name c = Some (Inr None)"
    and "getImpl_nullable h name c = Some (Inr \<lparr>setting = None, set_flag = False\<rparr>)"
  using assms
  by (simp_all add: getImpl_unset getImpl_nullable_unset Has_nullable_def default_node_def)

subsection \<open>Calls on an object of the store\<close>

lemma invoke_nth: "this < length h \<Longrightarrow> invoke this f h ! this = f (h ! this)"
  by (simp add: invoke_def)

lemma invoke_nth_other: "a \<noteq> this \<Longrightarrow> invoke this f h ! a = h ! a"
  by (simp add: invoke_def)

lemma invoke_nth_cases:
  "a < length h \<Longrightarrow> invoke this f h ! a = (if a = this then f (h ! a) else h ! a)"
  by (simp add: invoke_def nth_list_update)

lemma length_invoke: "length (invoke this f h) = length h"
  by (simp add: invoke_def)

lemma invoke_invoke: "invoke this f (invoke this g h) = invoke this (\<lambda>n. f (g n)) h"
  by (cases "this < length h") (simp_all add: invoke_def list_update_beyond)

lemma invoke_same: "f (h ! this) = h ! this \<Longrightarrow> invoke this f h = h"
  by (simp add: invoke_def)

lemma make_self_fresh:
  "make_self init h = (c, h') \<Longrightarrow>
     c = length h \<and> c < length h' \<and> h' ! c = default_node init \<and> (\<forall>a < length h. h' ! a = h ! a)"
  by (auto simp: make_self_def nth_append)

lemma CreateChild_unfold:
  assumes "this < length h"
  shows "CreateChild FinalizeInheritance init h this
           = Inr (length h,
                  FinalizeInheritance (length h)
                    (h @ [InsertParent this (default_node init)]))"
  using assms by (simp add: CreateChild_def make_self_def invoke_def)

subsection \<open>The setters and Clear on a node\<close>

lemma Set_nullable_slot:
  "nullable (Set_nullable name w n) name = \<lparr>setting = w, set_flag = True\<rparr>"
  by (cases "nullable n name") (auto simp: Set_nullable_def Has_nullable_def)

lemma Clear_Set: "Clear name (Set name v n) = Clear name n"
  by (simp add: Clear_def Set_def)

lemma Clear_unset: "\<not> Has name n \<Longrightarrow> Clear name n = n"
  by (simp add: Clear_def Has_def fun_upd_idem)

lemma Clear_nullable_unset: "\<not> Has_nullable name n \<Longrightarrow> Clear_nullable name n = n"
  by (simp add: Clear_nullable_def Has_nullable_def fun_upd_idem)

lemma Clear_nullable_slot:
  "nullable (Clear_nullable name n) name = (nullable n name)\<lparr>set_flag := False\<rparr>"
  "other \<noteq> name \<Longrightarrow> nullable (Clear_nullable name n) other = nullable n other"
  "parents (Clear_nullable name n) = parents n"
  "plain (Clear_nullable name n) = plain n"
  "extra (Clear_nullable name n) = extra n"
  by (simp_all add: Clear_nullable_def)

lemma Clear_nullable_Set_nullable_view:
  "same_nullable_view name (invoke this (Clear_nullable name) h)
     (invoke this (Clear_nullable name) (invoke this (Set_nullable name x) h))"
proof -
  have node: "parents (Clear_nullable name (Set_nullable name x n)) = parents (Clear_nullable name n)
      \<and> \<not> set_flag (nullable (Clear_nullable name (Set_nullable name x n)) name)
      \<and> \<not> set_flag (nullable (Clear_nullable name n) name)" for n :: "('a, 'b, 'c) node"
    by (simp add: Clear_nullable_def Set_nullable_def)
  show ?thesis
    unfolding invoke_invoke same_nullable_view_def
    by (simp add: length_invoke invoke_nth_cases node)
qed

subsection \<open>The getters\<close>

lemma Get_same_view:
  "same_plain_view name h h' \<Longrightarrow> Get dflt h' name a = Get dflt h name a"
  by (simp add: Get_def getImpl_same_view)

lemma Get_nullable_same_view:
  "same_nullable_view name h h' \<Longrightarrow> Get_nullable dflt h' name a = Get_nullable dflt h name a"
  by (simp add: Get_nullable_def getImpl_nullable_same_view)

lemma Get_first_parent:
  assumes "this < length h" and "\<not> Has name (h ! this)"
    and "parents (h ! this) = pre @ q # post"
    and "\<forall>p \<in> set pre. getImpl h name p = Some (Inr None)"
    and "getImpl h name q = Some (Inr (Some u))"
  shows "Get dflt h name this = Some (Inr u)"
proof -
  from assms(2) have "plain (h ! this) name = None"
    by (simp add: Has_def)
  from getImpl_first_parent[OF assms(1) this assms(3,4,5)] show ?thesis
    by (simp add: Get_def)
qed

lemma Get_nullable_first_parent:
  assumes "this < length h" and "\<not> Has_nullable name (h ! this)"
    and "parents (h ! this) = pre @ q # post"
    and "\<forall>p \<in> set pre. \<exists>r. getImpl_nullable h name p = Some (Inr r) \<and> \<not> set_flag r"
    and "getImpl_nullable h name q = Some (Inr \<lparr>setting = u, set_flag = True\<rparr>)"
  shows "Get_nullable dflt h name this = Some (Inr u)"
proof -
  from getImpl_nullable_first_parent[OF assms(1,2,3,4,5)] show ?thesis
    by (simp add: Get_nullable_def)
qed

lemma Get_no_explicit_ancestor:
  assumes "\<not> Has name (h ! this)" and "acyclic_from h this" and "valid_from h this"
    and "\<forall>a \<in> ancestry h this. a \<noteq> this \<longrightarrow> \<not> Has name (h ! a)"
  shows "Get dflt h name this = Some (Inr (dflt name))"
proof -
  from assms(1,4) have un: "\<forall>a \<in> ancestry h this. plain (h ! a) name = None"
    by (auto simp: Has_def)
  have "getImpl h name this = Some (Inr None)"
    by (rule getImpl_unset_ancestry[OF assms(2,3) un ancestry_self])
  then show ?thesis
    by (simp add: Get_def)
qed

lemma Get_nullable_no_explicit_ancestor:
  assumes "\<not> Has_nullable name (h ! this)" and "acyclic_from h this" and "valid_from h this"
    and "\<forall>a \<in> ancestry h this. a \<noteq> this \<longrightarrow> \<not> Has_nullable name (h ! a)"
  shows "Get_nullable dflt h name this = Some (Inr (dflt name))"
proof -
  from assms(1,4) have un: "\<forall>a \<in> ancestry h this. \<not> Has_nullable name (h ! a)"
    by auto
  have "getImpl_nullable h name this = Some (Inr \<lparr>setting = None, set_flag = False\<rparr>)"
    by (rule getImpl_nullable_unset_ancestry[OF assms(2,3) un ancestry_self])
  then show ?thesis
    by (simp add: Get_nullable_def)
qed

subsection \<open>A cycle\<close>

text \<open>
  Without the precondition resolution need not return: on an unset node that is its own
  parent, \<^verbatim>\<open>_get<name>Impl\<close> calls itself for ever.
\<close>

lemma getImpl_self_parent_diverges:
  fixes init :: 'x and name :: 'p
  shows "getImpl [InsertParent 0 (default_node init) :: ('p, 'v, 'x) node] name 0 = None"
proof (rule ccontr)
  let ?h = "[InsertParent 0 (default_node init) :: ('p, 'v, 'x) node]"
  assume "getImpl ?h name 0 \<noteq> None"
  then obtain y where y: "getImpl ?h name 0 = Some y"
    by auto
  have "getImpl h nm this = Some r \<Longrightarrow> h = ?h \<longrightarrow> this = 0 \<longrightarrow> False" for h nm this r
  proof (induction rule: getImpl.raw_induct[rotated 1, consumes 1, case_names step])
    case (step rec h nm this r)
    show ?case
    proof (intro impI)
      assume h: "h = ?h" and this: "this = 0"
      with step.hyps obtain r' where "rec h nm 0 = Some r'"
        by (auto simp: InsertParent_def default_node_def split: bind_splits)
      with step.IH h show False by blast
    qed
  qed
  with y show False by blast
qed

subsection \<open>The example stores\<close>

lemma parents_below_two_parent_store: "parents_below two_parent_store"
  by (simp add: parents_below_def two_parent_store_def store_ops All_less_Suc)

lemma ancestry_two_parent_store:
  assumes "a \<in> ancestry two_parent_store 2"
  shows "a = 0 \<or> a = 1 \<or> a = 2"
proof -
  from parents_below_ancestry[OF parents_below_two_parent_store assms] have "a \<le> 2" .
  then show ?thesis by arith
qed

lemma le_two_cases: "a \<le> (2::nat) \<Longrightarrow> a = 0 \<or> a = 1 \<or> a = 2"
  by arith

section \<open>The claims\<close>

subsection \<open>InsertParent at an index\<close>

text \<open>
  C1 (as amended). \<^verbatim>\<open>InsertParent(index, parent)\<close> with \<open>index\<close> between 0 and the
  current parent count inserts \<open>parent\<close> at that position: the list grows by one, the
  parents before \<open>index\<close> stay where they are, those from \<open>index\<close> on move one place
  later, and the slots and other members of the node are untouched. The code makes no
  range check: with \<open>index\<close> strictly greater than the parent count the call is
  undefined behaviour, not an out-of-range error.
\<close>

theorem InsertParent_at_in_range_or_undefined:
  "(index \<le> length (parents n) \<longrightarrow>
      (\<exists>n'. InsertParent_at index parent n = Inr n'
         \<and> length (parents n') = Suc (length (parents n))
         \<and> parents n' ! index = parent
         \<and> (\<forall>i < index. parents n' ! i = parents n ! i)
         \<and> (\<forall>i. index \<le> i \<and> i < length (parents n) \<longrightarrow> parents n' ! Suc i = parents n ! i)
         \<and> plain n' = plain n \<and> nullable n' = nullable n \<and> extra n' = extra n))
   \<and> (length (parents n) < index \<longrightarrow> InsertParent_at index parent n = Inl UndefinedBehavior)"
  by (auto simp: InsertParent_at_def nth_append min_def Suc_diff_le)

theorem InsertParent_at_in_range_or_undefined_witness:
  "(1::nat) \<le> length (parents (InsertParent 4 (InsertParent 3 (default_node () :: (nat, nat, unit) node))))
   \<and> (\<exists>n'. InsertParent_at 1 7 (InsertParent 4 (InsertParent 3 (default_node () :: (nat, nat, unit) node))) = Inr n'
          \<and> length (parents n') = 3 \<and> parents n' ! 0 = 3 \<and> parents n' ! 1 = 7 \<and> parents n' ! 2 = 4)
   \<and> length (parents (InsertParent 4 (InsertParent 3 (default_node () :: (nat, nat, unit) node)))) < (5::nat)
   \<and> InsertParent_at 5 7 (InsertParent 4 (InsertParent 3 (default_node () :: (nat, nat, unit) node)))
       = Inl UndefinedBehavior"
proof -
  let ?n = "InsertParent 4 (InsertParent 3 (default_node () :: (nat, nat, unit) node))"
  have ps: "parents ?n = [3, 4]"
    by (simp add: InsertParent_def default_node_def)
  have lo: "(1::nat) \<le> length (parents ?n)" and hi: "length (parents ?n) < (5::nat)"
    by (simp_all add: ps)
  from InsertParent_at_in_range_or_undefined[of 1 ?n 7] lo
  obtain n' where n': "InsertParent_at 1 7 ?n = Inr n'"
      "length (parents n') = Suc (length (parents ?n))"
      "parents n' ! 1 = 7"
      "\<forall>i < 1. parents n' ! i = parents ?n ! i"
      "\<forall>i. 1 \<le> i \<and> i < length (parents ?n) \<longrightarrow> parents n' ! Suc i = parents ?n ! i"
    by blast
  from n'(2) have "length (parents n') = 3" by (simp add: ps)
  moreover from n'(4) have "parents n' ! 0 = 3" by (simp add: ps)
  moreover from n'(5) have "parents n' ! Suc 1 = parents ?n ! 1"
    by (simp add: ps)
  then have "parents n' ! 2 = 4"
    by (simp add: ps numeral_2_eq_2)
  moreover from InsertParent_at_in_range_or_undefined[of 5 ?n 7] hi
  have "InsertParent_at 5 7 ?n = Inl UndefinedBehavior" by blast
  ultimately show ?thesis using lo hi n'(1,3) by blast
qed

text \<open>
  C1 as stated fails: \<^verbatim>\<open>InsertParent(5, p)\<close> on a node with two parents signals no
  out-of-range error; the source reaches \<^verbatim>\<open>vector::insert\<close> with an iterator three
  places beyond the end.
\<close>

theorem InsertParent_at_beyond_size_not_out_of_range:
  "InsertParent_at 5 7 (InsertParent 4 (InsertParent 3 (default_node () :: (nat, nat, unit) node)))
     = Inl UndefinedBehavior
   \<and> InsertParent_at 5 7 (InsertParent 4 (InsertParent 3 (default_node () :: (nat, nat, unit) node)))
     \<noteq> Inl OutOfRange"
  by (simp add: InsertParent_at_def InsertParent_def default_node_def)

subsection \<open>The first parent whose resolution succeeds wins\<close>

text \<open>
  C2. Let the node \<open>this\<close> have no explicit value for the property and let its parent
  list be \<open>pre @ q # post\<close>, where resolution on every parent in \<open>pre\<close> finds nothing and
  resolution on \<open>q\<close> yields \<open>v\<close>. Then the getter on \<open>this\<close> returns \<open>v\<close>. Nothing is
  assumed about \<open>post\<close>: the later parents may hold other values, null references or
  cycles, and the result is the same, so they are not consulted. Resolution on a
  parent \<open>q\<close> with an explicit value yields that value, whatever the ancestors of \<open>q\<close>
  hold. In particular, with exactly the parents \<open>A\<close> and \<open>B\<close>, in this order and both
  explicitly set, the getter returns the value of \<open>A\<close>. The same holds for the nullable
  slot.
\<close>

theorem first_parent_wins:
  assumes "this < length h"
  shows
    "(plain (h ! this) name = None \<and> parents (h ! this) = pre @ q # post
        \<and> (\<forall>p \<in> set pre. getImpl h name p = Some (Inr None))
        \<and> getImpl h name q = Some (Inr (Some v))
      \<longrightarrow> Get dflt h name this = Some (Inr v))
   \<and> (q < length h \<and> plain (h ! q) name = Some v
      \<longrightarrow> getImpl h name q = Some (Inr (Some v)))
   \<and> (plain (h ! this) name = None \<and> parents (h ! this) = [A, B]
        \<and> A < length h \<and> plain (h ! A) name = Some a
        \<and> B < length h \<and> plain (h ! B) name = Some b
      \<longrightarrow> Get dflt h name this = Some (Inr a))
   \<and> (\<not> Has_nullable name (h ! this) \<and> parents (h ! this) = pre @ q # post
        \<and> (\<forall>p \<in> set pre. \<exists>r. getImpl_nullable h name p = Some (Inr r) \<and> \<not> set_flag r)
        \<and> getImpl_nullable h name q = Some (Inr \<lparr>setting = w, set_flag = True\<rparr>)
      \<longrightarrow> Get_nullable dfltN h name this = Some (Inr w))
   \<and> (q < length h \<and> nullable (h ! q) name = \<lparr>setting = w, set_flag = True\<rparr>
      \<longrightarrow> getImpl_nullable h name q = Some (Inr \<lparr>setting = w, set_flag = True\<rparr>))
   \<and> (\<not> Has_nullable name (h ! this) \<and> parents (h ! this) = [A, B]
        \<and> A < length h \<and> nullable (h ! A) name = \<lparr>setting = wa, set_flag = True\<rparr>
        \<and> B < length h \<and> nullable (h ! B) name = \<lparr>setting = wb, set_flag = True\<rparr>
      \<longrightarrow> Get_nullable dfltN h name this = Some (Inr wa))"
proof (intro conjI impI)
  assume "plain (h ! this) name = None \<and> parents (h ! this) = pre @ q # post
        \<and> (\<forall>p \<in> set pre. getImpl h name p = Some (Inr None))
        \<and> getImpl h name q = Some (Inr (Some v))"
  with assms have "getImpl h name this = Some (Inr (Some v))"
    by (auto intro: getImpl_first_parent)
  then show "Get dflt h name this = Some (Inr v)"
    by (simp add: Get_def)
next
  assume "q < length h \<and> plain (h ! q) name = Some v"
  then show "getImpl h name q = Some (Inr (Some v))"
    by (simp add: getImpl_own)
next
  assume a: "plain (h ! this) name = None \<and> parents (h ! this) = [A, B]
        \<and> A < length h \<and> plain (h ! A) name = Some a
        \<and> B < length h \<and> plain (h ! B) name = Some b"
  then have "getImpl h name A = Some (Inr (Some a))"
    by (simp add: getImpl_own)
  with a assms have "getImpl h name this = Some (Inr (Some a))"
    by (auto intro: getImpl_first_parent[where pre = "[]" and q = A and post = "[B]"])
  then show "Get dflt h name this = Some (Inr a)"
    by (simp add: Get_def)
next
  assume "\<not> Has_nullable name (h ! this) \<and> parents (h ! this) = pre @ q # post
        \<and> (\<forall>p \<in> set pre. \<exists>r. getImpl_nullable h name p = Some (Inr r) \<and> \<not> set_flag r)
        \<and> getImpl_nullable h name q = Some (Inr \<lparr>setting = w, set_flag = True\<rparr>)"
  with assms have "getImpl_nullable h name this = Some (Inr \<lparr>setting = w, set_flag = True\<rparr>)"
    by (auto intro: getImpl_nullable_first_parent)
  then show "Get_nullable dfltN h name this = Some (Inr w)"
    by (simp add: Get_nullable_def)
next
  assume "q < length h \<and> nullable (h ! q) name = \<lparr>setting = w, set_flag = True\<rparr>"
  then show "getImpl_nullable h name q = Some (Inr \<lparr>setting = w, set_flag = True\<rparr>)"
    by (simp add: getImpl_nullable_own Has_nullable_def)
next
  assume a: "\<not> Has_nullable name (h ! this) \<and> parents (h ! this) = [A, B]
        \<and> A < length h \<and> nullable (h ! A) name = \<lparr>setting = wa, set_flag = True\<rparr>
        \<and> B < length h \<and> nullable (h ! B) name = \<lparr>setting = wb, set_flag = True\<rparr>"
  then have "getImpl_nullable h name A = Some (Inr \<lparr>setting = wa, set_flag = True\<rparr>)"
    by (simp add: getImpl_nullable_own Has_nullable_def)
  with a assms have "getImpl_nullable h name this = Some (Inr \<lparr>setting = wa, set_flag = True\<rparr>)"
    by (auto intro: getImpl_nullable_first_parent[where pre = "[]" and q = A and post = "[B]"])
  then show "Get_nullable dfltN h name this = Some (Inr wa)"
    by (simp add: Get_nullable_def)
qed

theorem first_parent_wins_witness:
  "4 < length layered_store
   \<and> parents (layered_store ! 4) = [3] @ 1 # [2, 99]
   \<and> getImpl layered_store 0 3 = Some (Inr None)
   \<and> getImpl layered_store 0 1 = Some (Inr (Some 10))
   \<and> plain (layered_store ! 2) 0 = Some 20
   \<and> Get Suc layered_store 0 4 = Some (Inr 10)
   \<and> Get_nullable Some layered_store 0 4 = Some (Inr (Some 10))
   \<and> parents (two_parent_store ! 2) = [0, 1]
   \<and> plain (two_parent_store ! 0) 0 = Some 10
   \<and> plain (two_parent_store ! 1) 0 = Some 20
   \<and> getImpl two_parent_store 0 0 = Some (Inr (Some 10))
   \<and> getImpl_nullable two_parent_store 0 1 = Some (Inr \<lparr>setting = None, set_flag = True\<rparr>)
   \<and> Get Suc two_parent_store 0 2 = Some (Inr 10)
   \<and> Get_nullable Some two_parent_store 0 2 = Some (Inr (Some 10))"
proof -
  have len: "4 < length layered_store"
    by (simp add: layered_store_def)
  have ps: "parents (layered_store ! 4) = [3] @ 1 # [2, 99]"
    by (simp add: layered_store_def store_ops)
  have own: "plain (layered_store ! 4) 0 = None" "\<not> Has_nullable 0 (layered_store ! 4)"
    by (simp_all add: layered_store_def store_ops)
  have root: "0 < length layered_store" "plain (layered_store ! 0) 0 = Some 10"
      "nullable (layered_store ! 0) 0 = \<lparr>setting = Some 10, set_flag = True\<rparr>"
    by (simp_all add: layered_store_def store_ops)
  have other: "plain (layered_store ! 2) 0 = Some 20"
    by (simp add: layered_store_def store_ops)
  note inst = first_parent_wins[OF len, where pre = "[3]" and q = 1 and post = "[2, 99]"
      and name = 0 and v = 10 and w = "Some 10" and dflt = Suc and dfltN = Some]
  have pre: "getImpl layered_store 0 3 = Some (Inr None)"
      "getImpl_nullable layered_store 0 3 = Some (Inr \<lparr>setting = None, set_flag = False\<rparr>)"
    by (simp_all add: getImpl.simps getImpl_nullable.simps layered_store_def store_ops)
  have mid: "getImpl layered_store 0 1 = Some (Inr (Some 10))"
      "getImpl_nullable layered_store 0 1 = Some (Inr \<lparr>setting = Some 10, set_flag = True\<rparr>)"
    by (simp_all add: getImpl.simps getImpl_nullable.simps layered_store_def store_ops)
  from inst own ps pre mid have g: "Get Suc layered_store 0 4 = Some (Inr 10)"
      "Get_nullable Some layered_store 0 4 = Some (Inr (Some 10))"
    by simp_all
  have len2: "2 < length two_parent_store"
    by (simp add: two_parent_store_def)
  have two: "plain (two_parent_store ! 2) 0 = None" "\<not> Has_nullable 0 (two_parent_store ! 2)"
      "parents (two_parent_store ! 2) = [0, 1]"
      "0 < length two_parent_store" "1 < length two_parent_store"
      "plain (two_parent_store ! 0) 0 = Some 10" "plain (two_parent_store ! 1) 0 = Some 20"
      "nullable (two_parent_store ! 0) 0 = \<lparr>setting = Some 10, set_flag = True\<rparr>"
      "nullable (two_parent_store ! 1) 0 = \<lparr>setting = None, set_flag = True\<rparr>"
    by (simp_all add: two_parent_store_def store_ops)
  from first_parent_wins[OF len2, where A = 0 and B = 1 and name = 0 and a = 10 and b = 20
      and wa = "Some 10" and wb = None and dflt = Suc and dfltN = Some] two
  have g2: "Get Suc two_parent_store 0 2 = Some (Inr 10)"
      "Get_nullable Some two_parent_store 0 2 = Some (Inr (Some 10))"
    by simp_all
  from first_parent_wins[OF len2, where q = 0 and name = 0 and v = 10] two
  have g3: "getImpl two_parent_store 0 0 = Some (Inr (Some 10))"
    by simp
  from first_parent_wins[OF len2, where q = 1 and name = 0 and w = None] two
  have g4: "getImpl_nullable two_parent_store 0 1
              = Some (Inr \<lparr>setting = None, set_flag = True\<rparr>)"
    by simp
  from len ps pre(1) mid(1) other g two(3,6,7) g2 g3 g4 show ?thesis
    by simp
qed

subsection \<open>Set, then Has and Get\<close>

text \<open>
  C3. For every node \<open>this\<close> of the store, every property, every prior state of the
  slot and every value: right after the setter, \<^verbatim>\<open>Has\<close> on the node is true and the
  getter returns the value just set, whatever the parents hold (nothing is assumed
  about them, not even that the parent graph is acyclic). This holds for the plain
  slot and, with a value \<open>w\<close> that may be null, for the nullable slot.
\<close>

theorem Set_then_Has_and_Get:
  assumes "this < length h"
  shows "Has name (invoke this (Set name v) h ! this)
       \<and> Get dflt (invoke this (Set name v) h) name this = Some (Inr v)
       \<and> Has_nullable name (invoke this (Set_nullable name w) h ! this)
       \<and> Get_nullable dfltN (invoke this (Set_nullable name w) h) name this = Some (Inr w)"
proof -
  let ?h = "invoke this (Set name v) h" and ?g = "invoke this (Set_nullable name w) h"
  have own: "plain (?h ! this) name = Some v"
    using assms by (simp add: invoke_nth Set_def)
  then have has: "Has name (?h ! this)"
    by (simp add: Has_def)
  from own assms have "getImpl ?h name this = Some (Inr (Some v))"
    by (intro getImpl_own) (simp_all add: length_invoke)
  then have get: "Get dflt ?h name this = Some (Inr v)"
    by (simp add: Get_def)
  have slot: "nullable (?g ! this) name = \<lparr>setting = w, set_flag = True\<rparr>"
    using assms by (simp add: invoke_nth Set_nullable_slot)
  then have hasN: "Has_nullable name (?g ! this)"
    by (simp add: Has_nullable_def)
  with assms have "getImpl_nullable ?g name this = Some (Inr (nullable (?g ! this) name))"
    by (intro getImpl_nullable_own) (simp_all add: length_invoke)
  with slot have getN: "Get_nullable dfltN ?g name this = Some (Inr w)"
    by (simp add: Get_nullable_def)
  from has get hasN getN show ?thesis by blast
qed

theorem Set_then_Has_and_Get_witness:
  "(1::nat) < length [Set_nullable 0 (Some 20) (Set 0 20 (default_node ())),
                      InsertParent 0 (default_node ()) :: (nat, nat, unit) node]
   \<and> Has 0 (invoke 1 (Set 0 10)
        [Set_nullable 0 (Some 20) (Set 0 20 (default_node ())),
         InsertParent 0 (default_node ()) :: (nat, nat, unit) node] ! 1)
   \<and> Get Suc (invoke 1 (Set 0 10)
        [Set_nullable 0 (Some 20) (Set 0 20 (default_node ())),
         InsertParent 0 (default_node ()) :: (nat, nat, unit) node]) 0 1 = Some (Inr 10)
   \<and> Has_nullable 0 (invoke 1 (Set_nullable 0 None)
        [Set_nullable 0 (Some 20) (Set 0 20 (default_node ())),
         InsertParent 0 (default_node ()) :: (nat, nat, unit) node] ! 1)
   \<and> Get_nullable Some (invoke 1 (Set_nullable 0 None)
        [Set_nullable 0 (Some 20) (Set 0 20 (default_node ())),
         InsertParent 0 (default_node ()) :: (nat, nat, unit) node]) 0 1 = Some (Inr None)"
proof -
  let ?h = "[Set_nullable 0 (Some 20) (Set 0 20 (default_node ())),
             InsertParent 0 (default_node ()) :: (nat, nat, unit) node]"
  have len: "(1::nat) < length ?h" by simp
  from Set_then_Has_and_Get[OF len, of 0 10 Suc None Some] len
  show ?thesis by blast
qed

subsection \<open>Clear after Set\<close>

text \<open>
  C4. After the setter and then \<^verbatim>\<open>Clear\<close> on a node, \<^verbatim>\<open>Has\<close> on it is false and the
  store is the one \<^verbatim>\<open>Clear\<close> alone would have produced; when the node had no explicit
  value before, it is the original store: the plain slot is back in the state of a node
  that never set the property. The getter then resolves through the parents: it
  returns the value of the first parent whose resolution succeeds and, when the parent
  graph is acyclic without null references and no ancestor has an explicit value, the
  declared default. For the nullable slot the stored value stays behind, so the store
  may differ from the original, but \<^verbatim>\<open>Has\<close> and the getter of the property agree with
  the original at every node, and the getter resolves through the parents in the same
  way.
\<close>

theorem Clear_after_Set_restores:
  fixes h :: "('p, 'v, 'x) heap" and this :: addr and name :: 'p and v :: 'v
    and w :: "'v option"
  assumes "this < length h"
  defines "h1 \<equiv> invoke this (Clear name) (invoke this (Set name v) h)"
    and "h2 \<equiv> invoke this (Clear_nullable name) (invoke this (Set_nullable name w) h)"
  shows
    "\<not> Has name (h1 ! this)
   \<and> h1 = invoke this (Clear name) h
   \<and> (\<not> Has name (h ! this) \<longrightarrow> h1 = h)
   \<and> (parents (h ! this) = pre @ q # post
        \<and> (\<forall>p \<in> set pre. getImpl h1 name p = Some (Inr None))
        \<and> getImpl h1 name q = Some (Inr (Some u))
      \<longrightarrow> Get dflt h1 name this = Some (Inr u))
   \<and> (acyclic_from h1 this \<and> valid_from h1 this
        \<and> (\<forall>a \<in> ancestry h1 this. a \<noteq> this \<longrightarrow> \<not> Has name (h1 ! a))
      \<longrightarrow> Get dflt h1 name this = Some (Inr (dflt name)))
   \<and> \<not> Has_nullable name (h2 ! this)
   \<and> (\<forall>a. Get_nullable dfltN h2 name a
            = Get_nullable dfltN (invoke this (Clear_nullable name) h) name a)
   \<and> (\<not> Has_nullable name (h ! this) \<longrightarrow>
        (\<forall>a. Get_nullable dfltN h2 name a = Get_nullable dfltN h name a)
        \<and> (\<forall>a < length h. Has_nullable name (h2 ! a) = Has_nullable name (h ! a)))
   \<and> (parents (h ! this) = pre @ q # post
        \<and> (\<forall>p \<in> set pre. \<exists>r. getImpl_nullable h2 name p = Some (Inr r) \<and> \<not> set_flag r)
        \<and> getImpl_nullable h2 name q = Some (Inr \<lparr>setting = x, set_flag = True\<rparr>)
      \<longrightarrow> Get_nullable dfltN h2 name this = Some (Inr x))
   \<and> (acyclic_from h2 this \<and> valid_from h2 this
        \<and> (\<forall>a \<in> ancestry h2 this. a \<noteq> this \<longrightarrow> \<not> Has_nullable name (h2 ! a))
      \<longrightarrow> Get_nullable dfltN h2 name this = Some (Inr (dfltN name)))"
proof -
  have h1: "h1 = invoke this (Clear name) h"
    by (simp add: h1_def invoke_invoke Clear_Set)
  have len1: "this < length h1" and len2: "this < length h2"
    using assms(1) by (simp_all add: h1_def h2_def length_invoke)
  have node1: "h1 ! this = Clear name (h ! this)"
    using assms(1) by (simp add: h1 invoke_nth)
  have node2: "h2 ! this = Clear_nullable name (Set_nullable name w (h ! this))"
    using assms(1) by (simp add: h2_def invoke_invoke invoke_nth)
  have p1: "\<not> Has name (h1 ! this)"
    by (simp add: node1 Has_def Clear_def)
  have p3: "\<not> Has name (h ! this) \<longrightarrow> h1 = h"
    by (simp add: h1 Clear_unset invoke_same)
  have ps1: "parents (h1 ! this) = parents (h ! this)"
    by (simp add: node1 Clear_def)
  have p4: "parents (h ! this) = pre @ q # post
        \<and> (\<forall>p \<in> set pre. getImpl h1 name p = Some (Inr None))
        \<and> getImpl h1 name q = Some (Inr (Some u))
      \<longrightarrow> Get dflt h1 name this = Some (Inr u)"
    using Get_first_parent[OF len1 p1, of pre q post u dflt] by (simp add: ps1)
  have p5: "acyclic_from h1 this \<and> valid_from h1 this
        \<and> (\<forall>a \<in> ancestry h1 this. a \<noteq> this \<longrightarrow> \<not> Has name (h1 ! a))
      \<longrightarrow> Get dflt h1 name this = Some (Inr (dflt name))"
    using Get_no_explicit_ancestor[OF p1, of dflt] by blast
  have n1: "\<not> Has_nullable name (h2 ! this)"
    by (simp add: node2 Has_nullable_def Clear_nullable_slot)
  have view: "same_nullable_view name (invoke this (Clear_nullable name) h) h2"
    unfolding h2_def by (rule Clear_nullable_Set_nullable_view)
  have n2: "\<forall>a. Get_nullable dfltN h2 name a
              = Get_nullable dfltN (invoke this (Clear_nullable name) h) name a"
    using Get_nullable_same_view[OF view] by simp
  have n3: "\<not> Has_nullable name (h ! this) \<longrightarrow>
        (\<forall>a. Get_nullable dfltN h2 name a = Get_nullable dfltN h name a)
        \<and> (\<forall>a < length h. Has_nullable name (h2 ! a) = Has_nullable name (h ! a))"
  proof (intro impI)
    assume un: "\<not> Has_nullable name (h ! this)"
    then have same: "invoke this (Clear_nullable name) h = h"
      by (simp add: Clear_nullable_unset invoke_same)
    with view have "same_nullable_view name h h2" by simp
    then show "(\<forall>a. Get_nullable dfltN h2 name a = Get_nullable dfltN h name a)
        \<and> (\<forall>a < length h. Has_nullable name (h2 ! a) = Has_nullable name (h ! a))"
      using Get_nullable_same_view[of name h h2 dfltN]
      by (simp add: same_nullable_view_def Has_nullable_def)
  qed
  have ps2: "parents (h2 ! this) = parents (h ! this)"
    by (simp add: node2 Clear_nullable_slot Set_nullable_def)
  have n4: "parents (h ! this) = pre @ q # post
        \<and> (\<forall>p \<in> set pre. \<exists>r. getImpl_nullable h2 name p = Some (Inr r) \<and> \<not> set_flag r)
        \<and> getImpl_nullable h2 name q = Some (Inr \<lparr>setting = x, set_flag = True\<rparr>)
      \<longrightarrow> Get_nullable dfltN h2 name this = Some (Inr x)"
    using Get_nullable_first_parent[OF len2 n1, of pre q post x dfltN] by (simp add: ps2)
  have n5: "acyclic_from h2 this \<and> valid_from h2 this
        \<and> (\<forall>a \<in> ancestry h2 this. a \<noteq> this \<longrightarrow> \<not> Has_nullable name (h2 ! a))
      \<longrightarrow> Get_nullable dfltN h2 name this = Some (Inr (dfltN name))"
    using Get_nullable_no_explicit_ancestor[OF n1, of dfltN] by blast
  from p1 h1 p3 p4 p5 n1 n2 n3 n4 n5 show ?thesis
    by (intro conjI)
qed

theorem Clear_after_Set_restores_witness:
  "2 < length two_parent_store
   \<and> \<not> Has 0 (two_parent_store ! 2)
   \<and> \<not> Has 0 (invoke 2 (Clear 0) (invoke 2 (Set 0 99) two_parent_store) ! 2)
   \<and> invoke 2 (Clear 0) (invoke 2 (Set 0 99) two_parent_store) = two_parent_store
   \<and> Get Suc (invoke 2 (Clear 0) (invoke 2 (Set 0 99) two_parent_store)) 0 2 = Some (Inr 10)
   \<and> Get Suc (invoke 2 (Clear 1) (invoke 2 (Set 1 99) two_parent_store)) 1 2 = Some (Inr 2)
   \<and> \<not> Has_nullable 0 (two_parent_store ! 2)
   \<and> \<not> Has_nullable 0
         (invoke 2 (Clear_nullable 0) (invoke 2 (Set_nullable 0 (Some 99)) two_parent_store) ! 2)
   \<and> Get_nullable Some
         (invoke 2 (Clear_nullable 0) (invoke 2 (Set_nullable 0 (Some 99)) two_parent_store)) 0 2
       = Some (Inr (Some 10))
   \<and> Get_nullable Some two_parent_store 0 2 = Some (Inr (Some 10))
   \<and> Get_nullable Some
         (invoke 2 (Clear_nullable 1) (invoke 2 (Set_nullable 1 (Some 99)) two_parent_store)) 1 2
       = Some (Inr (Some 1))"
proof -
  let ?h = two_parent_store
  let ?h1 = "invoke 2 (Clear 0) (invoke 2 (Set 0 99) ?h)"
  let ?k1 = "invoke 2 (Clear 1) (invoke 2 (Set 1 99) ?h)"
  let ?h2 = "invoke 2 (Clear_nullable 0) (invoke 2 (Set_nullable 0 (Some 99)) ?h)"
  let ?k2 = "invoke 2 (Clear_nullable 1) (invoke 2 (Set_nullable 1 (Some 99)) ?h)"
  have len: "2 < length ?h"
    by (simp add: two_parent_store_def)
  have un: "\<not> Has 0 (?h ! 2)" "\<not> Has 1 (?h ! 2)" "\<not> Has 1 (?h ! 1)" "\<not> Has 1 (?h ! 0)"
      "\<not> Has_nullable 0 (?h ! 2)"
    by (simp_all add: two_parent_store_def store_ops Has_def)
  have ps: "parents (?h ! 2) = [] @ 0 # [1]"
    by (simp add: two_parent_store_def store_ops)
  note plain0 = Clear_after_Set_restores[OF len, where name = 0 and v = 99 and w = "Some 99"
      and pre = "[]" and q = 0 and post = "[1]" and u = 10 and x = "Some 10"
      and dflt = Suc and dfltN = Some]
  from plain0 un(1) have same0: "?h1 = ?h" and has0: "\<not> Has 0 (?h1 ! 2)"
    by blast+
  have root: "getImpl ?h 0 0 = Some (Inr (Some 10))"
    by (simp add: getImpl.simps two_parent_store_def store_ops)
  have pre0: "\<forall>p \<in> set []. getImpl ?h1 0 p = Some (Inr None)"
      "\<forall>p \<in> set []. \<exists>r. getImpl_nullable ?h2 0 p = Some (Inr r) \<and> \<not> set_flag r"
    by simp_all
  from root same0 have root1: "getImpl ?h1 0 0 = Some (Inr (Some 10))"
    by simp
  from plain0 ps pre0(1) root1 have get0: "Get Suc ?h1 0 2 = Some (Inr 10)"
    by blast
  have rootN: "getImpl_nullable ?h2 0 0 = Some (Inr \<lparr>setting = Some 10, set_flag = True\<rparr>)"
    by (simp add: getImpl_nullable.simps invoke_def Clear_nullable_def two_parent_store_def
        store_ops)
  from plain0 ps pre0(2) rootN have getN0: "Get_nullable Some ?h2 0 2 = Some (Inr (Some 10))"
    by blast
  from plain0 un(5) have hasN0: "\<not> Has_nullable 0 (?h2 ! 2)"
      and backN0: "Get_nullable Some ?h2 0 2 = Get_nullable Some ?h 0 2"
    by blast+
  note plain1 = Clear_after_Set_restores[OF len, where name = 1 and v = 99 and w = "Some 99"
      and dflt = Suc and dfltN = Some]
  from plain1 un(2) have same1: "?k1 = ?h"
    by blast
  have ac1: "acyclic_from ?k1 2" and va1: "valid_from ?k1 2"
    unfolding same1
    by (rule parents_below_acyclic_from, rule parents_below_two_parent_store)
       (rule parents_below_valid_from, rule parents_below_two_parent_store, rule len)
  have anc1: "\<forall>a \<in> ancestry ?k1 2. a \<noteq> 2 \<longrightarrow> \<not> Has 1 (?k1 ! a)"
    unfolding same1 using un(3,4) ancestry_two_parent_store by blast
  from plain1 ac1 va1 anc1 have "Get Suc ?k1 1 2 = Some (Inr (Suc 1))"
    by blast
  then have get1: "Get Suc ?k1 1 2 = Some (Inr 2)"
    by simp
  have below: "parents_below ?k2"
    by (simp add: parents_below_def invoke_def Clear_nullable_def two_parent_store_def store_ops
        All_less_Suc)
  have len2: "2 < length ?k2"
    by (simp add: length_invoke len)
  have ac2: "acyclic_from ?k2 2" and va2: "valid_from ?k2 2"
    by (rule parents_below_acyclic_from, rule below)
       (rule parents_below_valid_from, rule below, rule len2)
  have unN: "\<not> Has_nullable 1 (?k2 ! 0)" "\<not> Has_nullable 1 (?k2 ! 1)"
    by (simp_all add: invoke_def two_parent_store_def store_ops)
  have anc2: "\<forall>a \<in> ancestry ?k2 2. a \<noteq> 2 \<longrightarrow> \<not> Has_nullable 1 (?k2 ! a)"
    using unN le_two_cases[OF parents_below_ancestry[OF below]] by blast
  from plain1 ac2 va2 anc2 have getN1: "Get_nullable Some ?k2 1 2 = Some (Inr (Some 1))"
    by blast
  from len un(1,5) has0 same0 get0 get1 hasN0 getN0 backN0 getN1 show ?thesis
    by simp
qed

subsection \<open>The default when nothing is set\<close>

text \<open>
  C5. On a freshly constructed node (the object \<^verbatim>\<open>make_self\<close> adds to any store) and for
  every property, \<^verbatim>\<open>Has\<close> is false and the getter returns the declared default. More
  generally, on a node whose parent graph is acyclic and whose ancestry holds no null
  reference: when neither the node nor any node of its ancestry has an explicit value
  for the property, the getter returns the declared default; it signals no error. Both
  hold for the plain and for the nullable slot.
\<close>

theorem Get_default_when_nothing_set:
  "(case make_self init st of (c, h') \<Rightarrow>
       \<not> Has name (h' ! c) \<and> Get dflt h' name c = Some (Inr (dflt name))
     \<and> \<not> Has_nullable name (h' ! c) \<and> Get_nullable dfltN h' name c = Some (Inr (dfltN name)))
   \<and> (acyclic_from h n \<and> valid_from h n \<and> (\<forall>a \<in> ancestry h n. \<not> Has name (h ! a))
        \<longrightarrow> Get dflt h name n = Some (Inr (dflt name)))
   \<and> (acyclic_from h n \<and> valid_from h n \<and> (\<forall>a \<in> ancestry h n. \<not> Has_nullable name (h ! a))
        \<longrightarrow> Get_nullable dfltN h name n = Some (Inr (dfltN name)))"
proof (intro conjI impI)
  obtain c h' where m: "make_self init st = (c, h')"
    by (cases "make_self init st")
  from make_self_fresh[OF m] have c: "c < length h'" "h' ! c = default_node init"
    by blast+
  from getImpl_default_node[OF c]
  have "Get dflt h' name c = Some (Inr (dflt name))"
    and "Get_nullable dfltN h' name c = Some (Inr (dfltN name))"
    by (simp_all add: Get_def Get_nullable_def)
  moreover from c have "\<not> Has name (h' ! c)" and "\<not> Has_nullable name (h' ! c)"
    by (simp_all add: Has_def Has_nullable_def default_node_def)
  ultimately show "case make_self init st of (c, h') \<Rightarrow>
       \<not> Has name (h' ! c) \<and> Get dflt h' name c = Some (Inr (dflt name))
     \<and> \<not> Has_nullable name (h' ! c) \<and> Get_nullable dfltN h' name c = Some (Inr (dfltN name))"
    by (simp add: m)
next
  assume a: "acyclic_from h n \<and> valid_from h n \<and> (\<forall>a \<in> ancestry h n. \<not> Has name (h ! a))"
  then have un: "\<forall>a \<in> ancestry h n. plain (h ! a) name = None"
    by (simp add: Has_def)
  from a have ac: "acyclic_from h n" and va: "valid_from h n"
    by simp_all
  have "getImpl h name n = Some (Inr None)"
    by (rule getImpl_unset_ancestry[OF ac va un ancestry_self])
  then show "Get dflt h name n = Some (Inr (dflt name))"
    by (simp add: Get_def)
next
  assume a: "acyclic_from h n \<and> valid_from h n
               \<and> (\<forall>a \<in> ancestry h n. \<not> Has_nullable name (h ! a))"
  then have ac: "acyclic_from h n" and va: "valid_from h n"
    and un: "\<forall>a \<in> ancestry h n. \<not> Has_nullable name (h ! a)"
    by simp_all
  have "getImpl_nullable h name n = Some (Inr \<lparr>setting = None, set_flag = False\<rparr>)"
    by (rule getImpl_nullable_unset_ancestry[OF ac va un ancestry_self])
  then show "Get_nullable dfltN h name n = Some (Inr (dfltN name))"
    by (simp add: Get_nullable_def)
qed

theorem Get_default_when_nothing_set_witness:
  "acyclic_from two_parent_store 2 \<and> valid_from two_parent_store 2
   \<and> \<not> Has 1 (two_parent_store ! 0) \<and> \<not> Has 1 (two_parent_store ! 1)
   \<and> \<not> Has 1 (two_parent_store ! 2)
   \<and> Get Suc two_parent_store 1 2 = Some (Inr 2)
   \<and> Get_nullable Some two_parent_store 1 2 = Some (Inr (Some 1))
   \<and> make_self () two_parent_store = (3, two_parent_store @ [default_node ()])
   \<and> Get Suc (two_parent_store @ [default_node ()]) 0 3 = Some (Inr 1)
   \<and> Get_nullable Some (two_parent_store @ [default_node ()]) 0 3 = Some (Inr (Some 0))"
proof -
  have ac: "acyclic_from two_parent_store 2"
    by (rule parents_below_acyclic_from) (rule parents_below_two_parent_store)
  have va: "valid_from two_parent_store 2"
    by (rule parents_below_valid_from, rule parents_below_two_parent_store)
       (simp add: two_parent_store_def)
  have un: "\<not> Has 1 (two_parent_store ! 0)" "\<not> Has 1 (two_parent_store ! 1)"
      "\<not> Has 1 (two_parent_store ! 2)"
      "\<not> Has_nullable 1 (two_parent_store ! 0)" "\<not> Has_nullable 1 (two_parent_store ! 1)"
      "\<not> Has_nullable 1 (two_parent_store ! 2)"
    by (simp_all add: two_parent_store_def store_ops Has_def)
  have all: "\<forall>a \<in> ancestry two_parent_store 2. \<not> Has 1 (two_parent_store ! a)"
      "\<forall>a \<in> ancestry two_parent_store 2. \<not> Has_nullable 1 (two_parent_store ! a)"
    using un ancestry_two_parent_store by blast+
  have mk: "make_self () two_parent_store = (3, two_parent_store @ [default_node ()])"
    by (simp add: make_self_def two_parent_store_def)
  note inst = Get_default_when_nothing_set[where h = two_parent_store and n = 2 and name = 1
      and dflt = Suc and dfltN = Some and st = two_parent_store and init = "()"]
  from inst ac va all
  have "Get Suc two_parent_store 1 2 = Some (Inr (Suc 1))"
      "Get_nullable Some two_parent_store 1 2 = Some (Inr (Some 1))"
    by blast+
  then have g: "Get Suc two_parent_store 1 2 = Some (Inr 2)"
      "Get_nullable Some two_parent_store 1 2 = Some (Inr (Some 1))"
    by simp_all
  from Get_default_when_nothing_set[where st = two_parent_store and init = "()" and name = 0
      and dflt = Suc and dfltN = Some and h = two_parent_store and n = 2] mk
  have f: "Get Suc (two_parent_store @ [default_node ()]) 0 3 = Some (Inr 1)"
      "Get_nullable Some (two_parent_store @ [default_node ()]) 0 3 = Some (Inr (Some 0))"
    by simp_all
  from ac va un(1,2,3) g mk f show ?thesis by blast
qed

subsection \<open>Explicitly null against unset\<close>

text \<open>
  C6. A nullable slot explicitly set to null holds \<^verbatim>\<open>{nullptr, true}\<close>: \<^verbatim>\<open>Has\<close> is true
  and the getter returns null, whatever the configured default is. An unset slot
  reports \<^verbatim>\<open>Has\<close> false, also when it stores the same null value; its getter returns
  the default when the node has no parents, and null when the first parent that
  resolves is explicitly null. \<^verbatim>\<open>Has\<close> is the flag of the slot, and resolution reads
  the stored value of a slot only where the flag is true: two stores with the same
  parents and flags, and the same values in the slots whose flag is true, give the
  same \<^verbatim>\<open>Has\<close> and the same getter results at every node.
\<close>

theorem nullable_flag_discriminates:
  assumes "this < length h"
  shows
    "nullable (invoke this (Set_nullable name None) h ! this) name
       = \<lparr>setting = None, set_flag = True\<rparr>
   \<and> Has_nullable name (invoke this (Set_nullable name None) h ! this)
   \<and> Get_nullable dfltN (invoke this (Set_nullable name None) h) name this = Some (Inr None)
   \<and> Has_nullable name (h ! this) = set_flag (nullable (h ! this) name)
   \<and> (nullable (h ! this) name = \<lparr>setting = None, set_flag = False\<rparr> \<and> parents (h ! this) = []
      \<longrightarrow> \<not> Has_nullable name (h ! this)
          \<and> Get_nullable dfltN h name this = Some (Inr (dfltN name)))
   \<and> (\<not> Has_nullable name (h ! this) \<and> parents (h ! this) = pre @ q # post
        \<and> (\<forall>p \<in> set pre. \<exists>r. getImpl_nullable h name p = Some (Inr r) \<and> \<not> set_flag r)
        \<and> q < length h \<and> nullable (h ! q) name = \<lparr>setting = None, set_flag = True\<rparr>
      \<longrightarrow> Get_nullable dfltN h name this = Some (Inr None))
   \<and> (\<forall>h2. same_nullable_view name h h2 \<longrightarrow>
          (\<forall>a. Get_nullable dfltN h2 name a = Get_nullable dfltN h name a)
        \<and> (\<forall>a < length h. Has_nullable name (h2 ! a) = Has_nullable name (h ! a)))"
proof -
  let ?g = "invoke this (Set_nullable name None) h"
  have len: "this < length ?g"
    using assms by (simp add: length_invoke)
  have c1: "nullable (?g ! this) name = \<lparr>setting = None, set_flag = True\<rparr>"
    using assms by (simp add: invoke_nth Set_nullable_slot)
  then have c2: "Has_nullable name (?g ! this)"
    by (simp add: Has_nullable_def)
  from getImpl_nullable_own[OF len c2] c1
  have c3: "Get_nullable dfltN ?g name this = Some (Inr None)"
    by (simp add: Get_nullable_def)
  have c4: "Has_nullable name (h ! this) = set_flag (nullable (h ! this) name)"
    by (simp add: Has_nullable_def)
  have c5: "nullable (h ! this) name = \<lparr>setting = None, set_flag = False\<rparr> \<and> parents (h ! this) = []
      \<longrightarrow> \<not> Has_nullable name (h ! this)
          \<and> Get_nullable dfltN h name this = Some (Inr (dfltN name))"
    using assms by (simp add: Has_nullable_def Get_nullable_def getImpl_nullable_unset)
  have c6: "\<not> Has_nullable name (h ! this) \<and> parents (h ! this) = pre @ q # post
        \<and> (\<forall>p \<in> set pre. \<exists>r. getImpl_nullable h name p = Some (Inr r) \<and> \<not> set_flag r)
        \<and> q < length h \<and> nullable (h ! q) name = \<lparr>setting = None, set_flag = True\<rparr>
      \<longrightarrow> Get_nullable dfltN h name this = Some (Inr None)"
  proof (intro impI)
    assume a: "\<not> Has_nullable name (h ! this) \<and> parents (h ! this) = pre @ q # post
        \<and> (\<forall>p \<in> set pre. \<exists>r. getImpl_nullable h name p = Some (Inr r) \<and> \<not> set_flag r)
        \<and> q < length h \<and> nullable (h ! q) name = \<lparr>setting = None, set_flag = True\<rparr>"
    then have "getImpl_nullable h name q = Some (Inr \<lparr>setting = None, set_flag = True\<rparr>)"
      by (simp add: getImpl_nullable_own Has_nullable_def)
    with a show "Get_nullable dfltN h name this = Some (Inr None)"
      using Get_nullable_first_parent[OF assms, of name pre q post None dfltN] by blast
  qed
  have c7: "\<forall>h2. same_nullable_view name h h2 \<longrightarrow>
          (\<forall>a. Get_nullable dfltN h2 name a = Get_nullable dfltN h name a)
        \<and> (\<forall>a < length h. Has_nullable name (h2 ! a) = Has_nullable name (h ! a))"
    by (simp add: Get_nullable_same_view) (simp add: same_nullable_view_def Has_nullable_def)
  show ?thesis
    by (intro conjI) (use c1 c2 c3 c4 c5 c6 c7 in blast)+
qed

theorem nullable_flag_discriminates_witness:
  "0 < length two_parent_store
   \<and> Has_nullable 0 (invoke 0 (Set_nullable 0 None) two_parent_store ! 0)
   \<and> Get_nullable Some (invoke 0 (Set_nullable 0 None) two_parent_store) 0 0 = Some (Inr None)
   \<and> nullable ((two_parent_store @ [default_node ()]) ! 3) 0
       = \<lparr>setting = None, set_flag = False\<rparr>
   \<and> \<not> Has_nullable 0 ((two_parent_store @ [default_node ()]) ! 3)
   \<and> Get_nullable Some (two_parent_store @ [default_node ()]) 0 3 = Some (Inr (Some 0))
   \<and> \<not> Has_nullable 0 (invoke 0 (Clear_nullable 0) two_parent_store ! 2)
   \<and> Get_nullable Some (invoke 0 (Clear_nullable 0) two_parent_store) 0 2 = Some (Inr None)
   \<and> same_nullable_view 0 two_parent_store
         (invoke 2 (Clear_nullable 0) (invoke 2 (Set_nullable 0 (Some 99)) two_parent_store))
   \<and> setting (nullable (invoke 2 (Clear_nullable 0)
         (invoke 2 (Set_nullable 0 (Some 99)) two_parent_store) ! 2) 0) = Some 99
   \<and> setting (nullable (two_parent_store ! 2) 0) = None
   \<and> Get_nullable Some (invoke 2 (Clear_nullable 0)
         (invoke 2 (Set_nullable 0 (Some 99)) two_parent_store)) 0 2
       = Get_nullable Some two_parent_store 0 2"
proof -
  let ?s = two_parent_store
  let ?f = "two_parent_store @ [default_node ()]"
  let ?c = "invoke 0 (Clear_nullable 0) two_parent_store"
  let ?r = "invoke 2 (Clear_nullable 0) (invoke 2 (Set_nullable 0 (Some 99)) two_parent_store)"
  have len: "0 < length ?s" "3 < length ?f" "2 < length ?c" "2 < length ?s"
    by (simp_all add: two_parent_store_def length_invoke)
  from nullable_flag_discriminates[OF len(1), of 0 Some]
  have a: "Has_nullable 0 (invoke 0 (Set_nullable 0 None) ?s ! 0)"
      "Get_nullable Some (invoke 0 (Set_nullable 0 None) ?s) 0 0 = Some (Inr None)"
    by blast+
  have fresh: "nullable (?f ! 3) 0 = \<lparr>setting = None, set_flag = False\<rparr>" "parents (?f ! 3) = []"
    by (simp_all add: two_parent_store_def default_node_def)
  from nullable_flag_discriminates[OF len(2), of 0 Some] fresh
  have b: "\<not> Has_nullable 0 (?f ! 3)" "Get_nullable Some ?f 0 3 = Some (Inr (Some 0))"
    by blast+
  have c0: "\<not> Has_nullable 0 (?c ! 2)" "parents (?c ! 2) = [0] @ 1 # []"
      "1 < length ?c" "nullable (?c ! 1) 0 = \<lparr>setting = None, set_flag = True\<rparr>"
    by (simp_all add: invoke_def two_parent_store_def store_ops)
  have "getImpl_nullable ?c 0 0 = Some (Inr \<lparr>setting = None, set_flag = False\<rparr>)"
    by (simp add: getImpl_nullable.simps invoke_def Clear_nullable_def two_parent_store_def
        store_ops)
  then have pre: "\<forall>p \<in> set [0]. \<exists>r. getImpl_nullable ?c 0 p = Some (Inr r) \<and> \<not> set_flag r"
    by simp
  from nullable_flag_discriminates[OF len(3), where name = 0 and pre = "[0]" and q = 1
      and post = "[]" and dfltN = Some] c0 pre
  have c: "Get_nullable Some ?c 0 2 = Some (Inr None)"
    by blast
  have "invoke 2 (Clear_nullable 0) ?s = ?s"
    by (rule invoke_same, rule Clear_nullable_unset)
       (simp add: two_parent_store_def store_ops)
  with Clear_nullable_Set_nullable_view[of 0 2 ?s "Some 99"]
  have view: "same_nullable_view 0 ?s ?r"
    by simp
  from nullable_flag_discriminates[OF len(4), where name = 0 and dfltN = Some] view
  have d: "Get_nullable Some ?r 0 2 = Get_nullable Some ?s 0 2"
    by blast
  have e: "setting (nullable (?r ! 2) 0) = Some 99" "setting (nullable (?s ! 2) 0) = None"
    by (simp_all add: invoke_def Clear_nullable_def two_parent_store_def store_ops)
  from len(1) a fresh(1) b c0(1) c view e d show ?thesis
    by simp
qed

subsection \<open>The child CreateChild returns\<close>

text \<open>
  C7. \<^verbatim>\<open>CreateChild\<close> on a node \<open>this\<close> of the store returns a new address, the
  length of the old store and so different from every existing object, together with
  the store the hook \<^verbatim>\<open>_FinalizeInheritance\<close> produces, applied once to the child and
  to the store \<open>h2\<close> in which the parent link is already made. In \<open>h2\<close> the child's
  parent list is exactly \<open>[this]\<close>, all its plain and nullable slots are unset, and
  the objects that existed before are as they were. The statement holds for every
  hook, which is what one call of it means; with the empty hook of \<^verbatim>\<open>IInheritable\<close>
  the returned store is \<open>h2\<close> itself.
\<close>

theorem CreateChild_result:
  assumes "this < length h"
  shows "\<exists>h2. CreateChild FinalizeInheritance init h this
                 = Inr (length h, FinalizeInheritance (length h) h2)
             \<and> CreateChild FinalizeInheritance_base init h this = Inr (length h, h2)
             \<and> length h2 = Suc (length h)
             \<and> parents (h2 ! length h) = [this]
             \<and> (\<forall>name. \<not> Has name (h2 ! length h))
             \<and> (\<forall>name. \<not> Has_nullable name (h2 ! length h))
             \<and> extra (h2 ! length h) = init
             \<and> (\<forall>a < length h. h2 ! a = h ! a)"
proof (intro exI conjI)
  let ?h2 = "h @ [InsertParent this (default_node init)]"
  show "CreateChild FinalizeInheritance init h this
          = Inr (length h, FinalizeInheritance (length h) ?h2)"
    by (rule CreateChild_unfold[OF assms])
  show "CreateChild FinalizeInheritance_base init h this = Inr (length h, ?h2)"
    by (simp add: CreateChild_unfold[OF assms] FinalizeInheritance_base_def)
  show "length ?h2 = Suc (length h)"
    by simp
  show "parents (?h2 ! length h) = [this]"
    by (simp add: InsertParent_def default_node_def)
  show "\<forall>name. \<not> Has name (?h2 ! length h)"
    by (simp add: Has_def InsertParent_def default_node_def)
  show "\<forall>name. \<not> Has_nullable name (?h2 ! length h)"
    by (simp add: Has_nullable_def InsertParent_def default_node_def)
  show "extra (?h2 ! length h) = init"
    by (simp add: InsertParent_def default_node_def)
  show "\<forall>a < length h. ?h2 ! a = h ! a"
    by (simp add: nth_append)
qed

theorem CreateChild_result_witness:
  "(1::nat) < length two_parent_store
   \<and> CreateChild FinalizeInheritance_base () two_parent_store 1
       = Inr (3, two_parent_store @ [InsertParent 1 (default_node ())])
   \<and> parents ((two_parent_store @ [InsertParent 1 (default_node ())]) ! 3) = [1]
   \<and> \<not> Has 0 ((two_parent_store @ [InsertParent 1 (default_node ())]) ! 3)
   \<and> \<not> Has_nullable 0 ((two_parent_store @ [InsertParent 1 (default_node ())]) ! 3)
   \<and> (\<exists>h' :: (nat, nat, nat) heap.
         CreateChild counting_hook 0 [default_node 0] 0 = Inr (1, h')
         \<and> parents (h' ! 1) = [0] \<and> extra (h' ! 1) = 1)"
proof -
  have len: "(1::nat) < length two_parent_store" and l3: "length two_parent_store = 3"
    by (simp_all add: two_parent_store_def)
  from CreateChild_result[OF len, of FinalizeInheritance_base "()"]
  obtain h2 :: "(nat, nat, unit) heap"
    where h2: "CreateChild FinalizeInheritance_base () two_parent_store 1
                 = Inr (length two_parent_store, h2)"
      "parents (h2 ! length two_parent_store) = [1]"
      "\<forall>name. \<not> Has name (h2 ! length two_parent_store)"
      "\<forall>name. \<not> Has_nullable name (h2 ! length two_parent_store)"
    by blast
  have "CreateChild FinalizeInheritance_base () two_parent_store 1
          = Inr (3, two_parent_store @ [InsertParent 1 (default_node ())])"
    using CreateChild_unfold[OF len, of FinalizeInheritance_base "()"]
    by (simp add: FinalizeInheritance_base_def l3)
  with h2(1) have eq: "h2 = two_parent_store @ [InsertParent 1 (default_node ())]"
    by simp
  let ?root = "[default_node 0] :: (nat, nat, nat) heap"
  have len0: "0 < length ?root"
    by simp
  from CreateChild_result[OF len0, of counting_hook 0]
  obtain g2 :: "(nat, nat, nat) heap"
    where g2: "CreateChild counting_hook 0 ?root 0 = Inr (length ?root, counting_hook (length ?root) g2)"
      "length g2 = Suc (length ?root)"
      "parents (g2 ! length ?root) = [0]" "extra (g2 ! length ?root) = 0"
    by blast
  from g2(2,3,4) have "parents (counting_hook 1 g2 ! 1) = [0] \<and> extra (counting_hook 1 g2 ! 1) = 1"
    by (simp add: counting_hook_def invoke_def)
  with g2(1) have counted: "\<exists>h' :: (nat, nat, nat) heap.
         CreateChild counting_hook 0 [default_node 0] 0 = Inr (1, h')
         \<and> parents (h' ! 1) = [0] \<and> extra (h' ! 1) = 1"
    by simp
  from h2 len counted show ?thesis
    unfolding eq l3 by simp
qed

subsection \<open>Termination of resolution\<close>

text \<open>
  C8. When the parent graph of a node is acyclic (no node of its ancestry lies on a
  cycle of parent references), resolution on it returns: \<^verbatim>\<open>_get<name>Impl\<close> and the
  getter yield a result, for the plain and for the nullable slot. Read the other way:
  a call that does not return means that the precondition is violated.
\<close>

theorem resolution_terminates_when_acyclic:
  assumes "acyclic_from h n"
  shows "(\<exists>r. getImpl h name n = Some r) \<and> (\<exists>r. Get dflt h name n = Some r)
       \<and> (\<exists>r. getImpl_nullable h name n = Some r) \<and> (\<exists>r. Get_nullable dfltN h name n = Some r)"
proof -
  from getImpl_returns[OF assms] obtain r where r: "getImpl h name n = Some r"
    by blast
  then have "\<exists>r'. Get dflt h name n = Some r'"
    by (cases r) (simp_all add: Get_def)
  moreover from getImpl_nullable_returns[OF assms]
  obtain s where s: "getImpl_nullable h name n = Some s"
    by blast
  then have "\<exists>s'. Get_nullable dfltN h name n = Some s'"
    by (cases s) (simp_all add: Get_nullable_def)
  ultimately show ?thesis using r s by blast
qed

theorem resolution_terminates_when_acyclic_witness:
  "acyclic_from two_parent_store 2
   \<and> (\<exists>r. getImpl two_parent_store 0 2 = Some r) \<and> (\<exists>r. Get Suc two_parent_store 0 2 = Some r)
   \<and> (\<exists>r. getImpl_nullable two_parent_store 0 2 = Some r)
   \<and> (\<exists>r. Get_nullable Some two_parent_store 0 2 = Some r)"
proof -
  have ac: "acyclic_from two_parent_store 2"
    by (rule parents_below_acyclic_from) (rule parents_below_two_parent_store)
  from resolution_terminates_when_acyclic[OF ac, of 0 Suc Some] ac
  show ?thesis by blast
qed

subsection \<open>The value a cleared nullable slot still holds\<close>

text \<open>
  C9. \<^verbatim>\<open>Clear\<close> on a nullable slot changes nothing but the flag of that slot, which
  becomes false: the stored value stays, and so do the other slots, the parents and the
  other objects. Afterwards \<^verbatim>\<open>Has\<close> is false. The value left behind cannot be observed:
  whatever value \<open>x\<close> a setter put into the slot before the \<^verbatim>\<open>Clear\<close>, \<^verbatim>\<open>Has\<close> and the getter
  of the property give the same results at every node of the store, and a later setter
  leaves the same store. The getter on the
  cleared node resolves through the parents (first parent whose resolution succeeds)
  and, when the parent graph is acyclic without null references and no ancestor has
  an explicit value, returns the declared default.
\<close>

theorem Clear_nullable_residual_unobservable:
  fixes h :: "('p, 'v, 'x) heap" and this :: addr and name :: 'p
  assumes "this < length h"
  defines "h' \<equiv> invoke this (Clear_nullable name) h"
  shows
    "setting (nullable (h' ! this) name) = setting (nullable (h ! this) name)
   \<and> \<not> set_flag (nullable (h' ! this) name)
   \<and> (\<forall>other. other \<noteq> name \<longrightarrow> nullable (h' ! this) other = nullable (h ! this) other)
   \<and> parents (h' ! this) = parents (h ! this)
   \<and> plain (h' ! this) = plain (h ! this)
   \<and> extra (h' ! this) = extra (h ! this)
   \<and> (\<forall>a. a \<noteq> this \<longrightarrow> h' ! a = h ! a)
   \<and> \<not> Has_nullable name (h' ! this)
   \<and> (\<forall>x. setting (nullable (invoke this (Clear_nullable name)
                (invoke this (Set_nullable name x) h) ! this) name) = x
          \<and> (\<forall>a. Get_nullable dfltN (invoke this (Clear_nullable name)
                      (invoke this (Set_nullable name x) h)) name a
                   = Get_nullable dfltN h' name a)
          \<and> (\<forall>a < length h. Has_nullable name (invoke this (Clear_nullable name)
                      (invoke this (Set_nullable name x) h) ! a)
                   = Has_nullable name (h' ! a)))
   \<and> (\<forall>x v. invoke this (Set_nullable name v)
               (invoke this (Clear_nullable name) (invoke this (Set_nullable name x) h))
             = invoke this (Set_nullable name v) h')
   \<and> (parents (h ! this) = pre @ q # post
        \<and> (\<forall>p \<in> set pre. \<exists>r. getImpl_nullable h' name p = Some (Inr r) \<and> \<not> set_flag r)
        \<and> getImpl_nullable h' name q = Some (Inr \<lparr>setting = u, set_flag = True\<rparr>)
      \<longrightarrow> Get_nullable dfltN h' name this = Some (Inr u))
   \<and> (acyclic_from h' this \<and> valid_from h' this
        \<and> (\<forall>a \<in> ancestry h' this. a \<noteq> this \<longrightarrow> \<not> Has_nullable name (h' ! a))
      \<longrightarrow> Get_nullable dfltN h' name this = Some (Inr (dfltN name)))"
proof -
  have len: "this < length h'"
    using assms(1) by (simp add: h'_def length_invoke)
  have node: "h' ! this = Clear_nullable name (h ! this)"
    using assms(1) by (simp add: h'_def invoke_nth)
  have c1: "setting (nullable (h' ! this) name) = setting (nullable (h ! this) name)"
    and c2: "\<not> set_flag (nullable (h' ! this) name)"
    and c3: "\<forall>other. other \<noteq> name \<longrightarrow> nullable (h' ! this) other = nullable (h ! this) other"
    and c4: "parents (h' ! this) = parents (h ! this)"
    and c5: "plain (h' ! this) = plain (h ! this)"
    and c6: "extra (h' ! this) = extra (h ! this)"
    by (simp_all add: node Clear_nullable_slot)
  have c7: "\<forall>a. a \<noteq> this \<longrightarrow> h' ! a = h ! a"
    by (simp add: h'_def invoke_nth_other)
  from c2 have c8: "\<not> Has_nullable name (h' ! this)"
    by (simp add: Has_nullable_def)
  have c9: "setting (nullable (invoke this (Clear_nullable name)
                (invoke this (Set_nullable name x) h) ! this) name) = x
          \<and> (\<forall>a. Get_nullable dfltN (invoke this (Clear_nullable name)
                      (invoke this (Set_nullable name x) h)) name a
                   = Get_nullable dfltN h' name a)
          \<and> (\<forall>a < length h. Has_nullable name (invoke this (Clear_nullable name)
                      (invoke this (Set_nullable name x) h) ! a)
                   = Has_nullable name (h' ! a))" for x
  proof -
    let ?g = "invoke this (Clear_nullable name) (invoke this (Set_nullable name x) h)"
    have "?g ! this = Clear_nullable name (Set_nullable name x (h ! this))"
      using assms(1) by (simp add: invoke_invoke invoke_nth)
    then have a: "setting (nullable (?g ! this) name) = x"
      by (simp add: Clear_nullable_slot Set_nullable_slot)
    have view: "same_nullable_view name h' ?g"
      unfolding h'_def by (rule Clear_nullable_Set_nullable_view)
    then have b: "\<forall>a. Get_nullable dfltN ?g name a = Get_nullable dfltN h' name a"
      by (simp add: Get_nullable_same_view)
    from view have c: "\<forall>a < length h. Has_nullable name (?g ! a) = Has_nullable name (h' ! a)"
      by (simp add: same_nullable_view_def Has_nullable_def h'_def length_invoke)
    from a b c show ?thesis by blast
  qed
  have "Set_nullable name v (Clear_nullable name (Set_nullable name x n))
          = Set_nullable name v (Clear_nullable name n)" for x v and n :: "('p, 'v, 'x) node"
    by (simp add: Set_nullable_def Clear_nullable_def Has_nullable_def)
  then have c12: "\<forall>x v. invoke this (Set_nullable name v)
               (invoke this (Clear_nullable name) (invoke this (Set_nullable name x) h))
             = invoke this (Set_nullable name v) h'"
    by (simp add: h'_def invoke_invoke)
  have c10: "parents (h ! this) = pre @ q # post
        \<and> (\<forall>p \<in> set pre. \<exists>r. getImpl_nullable h' name p = Some (Inr r) \<and> \<not> set_flag r)
        \<and> getImpl_nullable h' name q = Some (Inr \<lparr>setting = u, set_flag = True\<rparr>)
      \<longrightarrow> Get_nullable dfltN h' name this = Some (Inr u)"
    using Get_nullable_first_parent[OF len c8, of pre q post u dfltN] by (simp add: c4)
  have c11: "acyclic_from h' this \<and> valid_from h' this
        \<and> (\<forall>a \<in> ancestry h' this. a \<noteq> this \<longrightarrow> \<not> Has_nullable name (h' ! a))
      \<longrightarrow> Get_nullable dfltN h' name this = Some (Inr (dfltN name))"
    using Get_nullable_no_explicit_ancestor[OF c8, of dfltN] by blast
  show ?thesis
    by (intro conjI) (use c1 c2 c3 c4 c5 c6 c7 c8 c9 c10 c11 c12 in blast)+
qed

theorem Clear_nullable_residual_unobservable_witness:
  "2 < length (invoke 2 (Set_nullable 0 (Some 99)) two_parent_store)
   \<and> nullable (invoke 2 (Set_nullable 0 (Some 99)) two_parent_store ! 2) 0
       = \<lparr>setting = Some 99, set_flag = True\<rparr>
   \<and> nullable (invoke 2 (Clear_nullable 0)
         (invoke 2 (Set_nullable 0 (Some 99)) two_parent_store) ! 2) 0
       = \<lparr>setting = Some 99, set_flag = False\<rparr>
   \<and> \<not> Has_nullable 0 (invoke 2 (Clear_nullable 0)
         (invoke 2 (Set_nullable 0 (Some 99)) two_parent_store) ! 2)
   \<and> Get_nullable Some (invoke 2 (Clear_nullable 0)
         (invoke 2 (Set_nullable 0 (Some 99)) two_parent_store)) 0 2 = Some (Inr (Some 10))
   \<and> Get_nullable Some (invoke 2 (Clear_nullable 0)
         (invoke 2 (Set_nullable 0 (Some 55))
           (invoke 2 (Set_nullable 0 (Some 99)) two_parent_store))) 0 2 = Some (Inr (Some 10))
   \<and> Get_nullable Some (invoke 2 (Clear_nullable 1)
         (invoke 2 (Set_nullable 1 (Some 99)) two_parent_store)) 1 2 = Some (Inr (Some 1))"
proof -
  let ?t = "invoke 2 (Set_nullable 0 (Some 99)) two_parent_store"
  let ?t' = "invoke 2 (Clear_nullable 0) ?t"
  let ?k = "invoke 2 (Set_nullable 1 (Some 99)) two_parent_store"
  let ?k' = "invoke 2 (Clear_nullable 1) ?k"
  have len: "2 < length ?t" and lenk: "2 < length ?k"
    by (simp_all add: length_invoke two_parent_store_def)
  have slot: "nullable (?t ! 2) 0 = \<lparr>setting = Some 99, set_flag = True\<rparr>"
    by (simp add: invoke_def two_parent_store_def store_ops)
  have slot': "nullable (?t' ! 2) 0 = \<lparr>setting = Some 99, set_flag = False\<rparr>"
    by (simp add: invoke_def Clear_nullable_def two_parent_store_def store_ops)
  have ps: "parents (?t ! 2) = [] @ 0 # [1]"
    by (simp add: invoke_def two_parent_store_def store_ops)
  have pre: "\<forall>p \<in> set []. \<exists>r. getImpl_nullable ?t' 0 p = Some (Inr r) \<and> \<not> set_flag r"
    by simp
  have root: "getImpl_nullable ?t' 0 0 = Some (Inr \<lparr>setting = Some 10, set_flag = True\<rparr>)"
    by (simp add: getImpl_nullable.simps invoke_def Clear_nullable_def two_parent_store_def
        store_ops)
  note inst = Clear_nullable_residual_unobservable[OF len, where name = 0 and pre = "[]"
      and q = 0 and post = "[1]" and u = "Some 10" and dfltN = Some]
  from inst have has: "\<not> Has_nullable 0 (?t' ! 2)"
    by blast
  from inst ps pre root have get: "Get_nullable Some ?t' 0 2 = Some (Inr (Some 10))"
    by blast
  from inst have "Get_nullable Some (invoke 2 (Clear_nullable 0)
         (invoke 2 (Set_nullable 0 (Some 55)) ?t)) 0 2 = Get_nullable Some ?t' 0 2"
    by blast
  with get have other: "Get_nullable Some (invoke 2 (Clear_nullable 0)
         (invoke 2 (Set_nullable 0 (Some 55)) ?t)) 0 2 = Some (Inr (Some 10))"
    by simp
  have below: "parents_below ?k'"
    by (simp add: parents_below_def invoke_def Clear_nullable_def two_parent_store_def store_ops
        All_less_Suc)
  have lenk': "2 < length ?k'"
    by (simp add: length_invoke two_parent_store_def)
  have ac: "acyclic_from ?k' 2" and va: "valid_from ?k' 2"
    by (rule parents_below_acyclic_from, rule below)
       (rule parents_below_valid_from, rule below, rule lenk')
  have un: "\<not> Has_nullable 1 (?k' ! 0)" "\<not> Has_nullable 1 (?k' ! 1)"
    by (simp_all add: invoke_def two_parent_store_def store_ops)
  have anc: "\<forall>a \<in> ancestry ?k' 2. a \<noteq> 2 \<longrightarrow> \<not> Has_nullable 1 (?k' ! a)"
    using un le_two_cases[OF parents_below_ancestry[OF below]] by blast
  from Clear_nullable_residual_unobservable[OF lenk, where name = 1 and dfltN = Some] ac va anc
  have dflt: "Get_nullable Some ?k' 1 2 = Some (Inr (Some 1))"
    by blast
  from len slot slot' has get other dflt show ?thesis
    by simp
qed

subsection \<open>CreateChild and the creator\<close>

text \<open>
  C10. \<^verbatim>\<open>CreateChild\<close> on a node \<open>this\<close> hands the hook a store in which every object
  that existed before, the creator among them, is as it was: the child refers to the
  creator, not the reverse. So with the empty hook of \<^verbatim>\<open>IInheritable\<close>, and with any
  hook that does not write to the creator, the creator is unchanged in the returned
  store: same parents, same slots, same other members.
\<close>

theorem CreateChild_creator_unchanged:
  assumes "this < length h"
  shows "(\<exists>child h'. CreateChild FinalizeInheritance_base init h this = Inr (child, h')
            \<and> child \<noteq> this \<and> h' ! this = h ! this
            \<and> parents (h' ! this) = parents (h ! this)
            \<and> plain (h' ! this) = plain (h ! this)
            \<and> nullable (h' ! this) = nullable (h ! this)
            \<and> (\<forall>a < length h. h' ! a = h ! a))
       \<and> ((\<forall>g. FinalizeInheritance (length h) g ! this = g ! this) \<longrightarrow>
            (\<exists>child h'. CreateChild FinalizeInheritance init h this = Inr (child, h')
               \<and> child \<noteq> this \<and> h' ! this = h ! this))"
proof (intro conjI impI)
  let ?h2 = "h @ [InsertParent this (default_node init)]"
  have old: "\<forall>a < length h. ?h2 ! a = h ! a"
    by (simp add: nth_append)
  have "CreateChild FinalizeInheritance_base init h this = Inr (length h, ?h2)"
    by (simp add: CreateChild_unfold[OF assms] FinalizeInheritance_base_def)
  with old assms
  show "\<exists>child h'. CreateChild FinalizeInheritance_base init h this = Inr (child, h')
            \<and> child \<noteq> this \<and> h' ! this = h ! this
            \<and> parents (h' ! this) = parents (h ! this)
            \<and> plain (h' ! this) = plain (h ! this)
            \<and> nullable (h' ! this) = nullable (h ! this)
            \<and> (\<forall>a < length h. h' ! a = h ! a)"
    by (intro exI[of _ "length h"] exI[of _ ?h2]) auto
  assume frame: "\<forall>g. FinalizeInheritance (length h) g ! this = g ! this"
  have "CreateChild FinalizeInheritance init h this
          = Inr (length h, FinalizeInheritance (length h) ?h2)"
    by (rule CreateChild_unfold[OF assms])
  moreover from frame old assms have "FinalizeInheritance (length h) ?h2 ! this = h ! this"
    by simp
  ultimately
  show "\<exists>child h'. CreateChild FinalizeInheritance init h this = Inr (child, h')
               \<and> child \<noteq> this \<and> h' ! this = h ! this"
    using assms by (intro exI[of _ "length h"] exI[of _ "FinalizeInheritance (length h) ?h2"]) auto
qed

theorem CreateChild_creator_unchanged_witness:
  "(1::nat) < length two_parent_store
   \<and> CreateChild FinalizeInheritance_base () two_parent_store 1
       = Inr (3, two_parent_store @ [InsertParent 1 (default_node ())])
   \<and> (two_parent_store @ [InsertParent 1 (default_node ())]) ! 1 = two_parent_store ! 1
   \<and> (\<exists>h'. CreateChild FinalizeInheritance_base () two_parent_store 1 = Inr (3, h')
          \<and> parents (h' ! 1) = [] \<and> plain (h' ! 1) 0 = Some 20)
   \<and> (\<exists>h' :: (nat, nat, nat) heap.
         CreateChild counting_hook 0 [Set 0 10 (default_node 0)] 0 = Inr (1, h')
         \<and> h' ! 0 = Set 0 10 (default_node 0))"
proof -
  have len: "(1::nat) < length two_parent_store" and l3: "length two_parent_store = 3"
    by (simp_all add: two_parent_store_def)
  have frame: "\<forall>g :: (nat, nat, unit) heap.
      FinalizeInheritance_base (length two_parent_store) g ! 1 = g ! 1"
    by (simp add: FinalizeInheritance_base_def)
  have cc: "CreateChild FinalizeInheritance_base () two_parent_store 1
          = Inr (3, two_parent_store @ [InsertParent 1 (default_node ())])"
    using CreateChild_unfold[OF len, of FinalizeInheritance_base "()"]
    by (simp add: FinalizeInheritance_base_def l3)
  from CreateChild_creator_unchanged[OF len, of "()" FinalizeInheritance_base] frame
  obtain child and h' :: "(nat, nat, unit) heap"
    where r: "CreateChild FinalizeInheritance_base () two_parent_store 1 = Inr (child, h')"
      "h' ! 1 = two_parent_store ! 1"
    by blast
  from r(1) cc have eq: "child = 3" "h' = two_parent_store @ [InsertParent 1 (default_node ())]"
    by simp_all
  have creator: "parents (two_parent_store ! 1) = []" "plain (two_parent_store ! 1) 0 = Some 20"
    by (simp_all add: two_parent_store_def store_ops)
  from r(2) creator have cr: "parents (h' ! 1) = []" "plain (h' ! 1) 0 = Some 20"
    by simp_all
  let ?root = "[Set 0 10 (default_node 0)] :: (nat, nat, nat) heap"
  have len0: "0 < length ?root"
    by simp
  have frame0: "\<forall>g :: (nat, nat, nat) heap. counting_hook (length ?root) g ! 0 = g ! 0"
    by (simp add: counting_hook_def invoke_nth_other)
  from CreateChild_creator_unchanged[OF len0, of 0 counting_hook] frame0
  obtain c0 and g' :: "(nat, nat, nat) heap"
    where g': "CreateChild counting_hook 0 ?root 0 = Inr (c0, g')" "g' ! 0 = ?root ! 0"
    by blast
  have "CreateChild counting_hook 0 ?root 0
          = Inr (1, counting_hook 1 (?root @ [InsertParent 0 (default_node 0)]))"
    using CreateChild_unfold[OF len0, of counting_hook 0] by simp
  with g'(1) have c0: "c0 = 1"
    by simp
  from g' have counted: "\<exists>h' :: (nat, nat, nat) heap.
         CreateChild counting_hook 0 [Set 0 10 (default_node 0)] 0 = Inr (1, h')
         \<and> h' ! 0 = Set 0 10 (default_node 0)"
    unfolding c0 by (intro exI[of _ g']) simp
  from r eq len cc cr counted show ?thesis
    by auto
qed

end
